theory Spec2Isabelle
  imports Main "HOL-Library.Sublist" "HOL-Library.Multiset"
begin

section \<open>Values, jobs and components\<close>

text \<open>
  The two modules verified here are \<^verbatim>\<open>nextTick\<close> (the deferred-callback queue) and the
  watcher scheduler (\<^verbatim>\<open>queueWatcher\<close>, \<^verbatim>\<open>flushSchedulerQueue\<close>). Their module-level variables
  become the fields of one record, every function takes the record and returns the updated one.
\<close>

datatype jsval = JUndefined | JStr string | JObj nat

text \<open>
  A \<^verbatim>\<open>Watcher\<close> as the scheduler reads it: \<^verbatim>\<open>id\<close>, \<^verbatim>\<open>user\<close>, \<^verbatim>\<open>expression\<close>, \<^verbatim>\<open>vm\<close> (the address of
  the owning component) and whether a \<^verbatim>\<open>before\<close> function is present. What \<^verbatim>\<open>run\<close> and
  \<^verbatim>\<open>before\<close> do is external code, given by the environment below.
\<close>

record watcher =
  watcher_id :: nat
  user :: bool
  expression :: string
  vm :: nat
  has_before :: bool

text \<open>
  A component instance: \<^verbatim>\<open>_watcher\<close> (the id of its render watcher; watcher ids are unique, so
  the identity test \<^verbatim>\<open>vm._watcher === watcher\<close> is a test on ids), \<^verbatim>\<open>_isMounted\<close>,
  \<^verbatim>\<open>_isDestroyed\<close>, \<^verbatim>\<open>_inactive\<close>.
\<close>

record component =
  vm_watcher :: "nat option"
  vm_isMounted :: bool
  vm_isDestroyed :: bool
  vm_inactive :: bool

text \<open>A function handed to \<^verbatim>\<open>nextTick\<close>: the scheduler's own flush, or a caller's function.\<close>

datatype callback = FlushSchedulerQueue | UserFn nat

text \<open>
  The closure \<^verbatim>\<open>nextTick\<close> pushes on \<^verbatim>\<open>callbacks\<close>. It captures \<^verbatim>\<open>cb\<close>, \<^verbatim>\<open>ctx\<close> and the
  variable \<^verbatim>\<open>_resolve\<close>, which is assigned after the push.
\<close>

record entry =
  entry_cb :: "callback option"
  entry_ctx :: jsval
  entry_resolve :: "nat option"

text \<open>
  What reading \<^verbatim>\<open>then\<close> on an object gives the resolve function of a promise: nothing callable,
  a function, or an exception thrown by a getter.
\<close>

datatype then_kind = Then_absent | Then_callable | Then_throws jsval

text \<open>
  A promise is pending, fulfilled, rejected, or resolved with a thenable: then it is not settled,
  the host calls the thenable's \<^verbatim>\<open>then\<close> in a later job and the promise takes the fate of the
  thenable, which may be any value or none.
\<close>

datatype promise_state = Pending | Fulfilled jsval | Rejected jsval | Following jsval

text \<open>The values of \<^verbatim>\<open>has[id]\<close>: \<^verbatim>\<open>undefined\<close>, \<^verbatim>\<open>null\<close> and \<^verbatim>\<open>true\<close>.\<close>

datatype hasflag = Absent | Null | Present

text \<open>What the host is asked to schedule by \<^verbatim>\<open>timerFunc\<close>.\<close>

datatype host_call =
    Promise_then_flushCallbacks
  | SetTimeout_noop
  | TextNode_data nat
  | SetImmediate_flushCallbacks
  | SetTimeout_flushCallbacks

text \<open>Calls that leave the two modules, in the order they happen.\<close>

datatype event =
    Before_called nat
  | Run_called nat
  | Warned string nat
  | HandleError jsval jsval string
  | Cb_called nat jsval
  | Hook_updated nat
  | Activate_child nat
  | Devtools_flush

text \<open>
  The state: the variables of the two modules, what they read of the caller's objects (the
  components, by address, and what reading \<^verbatim>\<open>then\<close> on an object gives), the promises
  created by \<^verbatim>\<open>nextTick\<close>, the requests made to the host and the trace of calls.
\<close>

record world =
  callbacks :: "entry list"
  pending :: bool
  counter :: nat
  queue :: "watcher list"
  activatedChildren :: "nat list"
  has :: "nat \<Rightarrow> hasflag"
  circular :: "nat \<rightharpoonup> nat"
  waiting :: bool
  flushing :: bool
  index :: nat
  currentFlushTimestamp :: nat
  vms :: "nat \<Rightarrow> component"
  thens :: "nat \<Rightarrow> then_kind"
  promises :: "promise_state list"
  host_calls :: "host_call list"
  events :: "event list"
  clock :: nat

text \<open>
  The host capabilities and build settings the code probes: \<^verbatim>\<open>typeof Promise !== 'undefined'\<close>,
  \<^verbatim>\<open>isNative(Promise)\<close>, \<^verbatim>\<open>isIE\<close>, \<^verbatim>\<open>isIOS\<close>, the three tests on \<^verbatim>\<open>MutationObserver\<close>, the two
  on \<^verbatim>\<open>setImmediate\<close>, \<^verbatim>\<open>process.env.NODE_ENV === 'production'\<close>, \<^verbatim>\<open>config.async\<close> and
  \<^verbatim>\<open>devtools && config.devtools\<close>.
\<close>

record host =
  Promise_defined :: bool
  Promise_native :: bool
  isIE :: bool
  isIOS :: bool
  MutationObserver_defined :: bool
  MutationObserver_native :: bool
  MutationObserver_legacy :: bool
  setImmediate_defined :: bool
  setImmediate_native :: bool
  production :: bool
  config_async :: bool
  devtools_on :: bool

text \<open>An exception leaves the state as it was when it was thrown.\<close>

datatype outcome = Normal world | Abrupt jsval world

text \<open>
  External code (a watcher's \<^verbatim>\<open>run\<close> and \<^verbatim>\<open>before\<close>, a caller's callback, a component's
  hooks) is a sequence of calls into the exported functions and of writes to what the modules
  read of the caller's objects (the flags of a component, the \<^verbatim>\<open>then\<close> of an object), possibly
  ending in a throw.
\<close>

datatype action =
    Call_queueWatcher watcher
  | Call_queueActivatedComponent nat
  | Call_nextTick "callback option" jsval
  | Set_component nat component
  | Set_then nat then_kind
  | Throw jsval

record env =
  run_of :: "watcher \<Rightarrow> world \<Rightarrow> action list"
  before_of :: "watcher \<Rightarrow> world \<Rightarrow> action list"
  fn_of :: "nat \<Rightarrow> world \<Rightarrow> action list"
  updated_of :: "nat \<Rightarrow> world \<Rightarrow> action list"
  activated_of :: "nat \<Rightarrow> world \<Rightarrow> action list"

section \<open>nextTick\<close>

datatype timer_kind = ViaPromise | ViaMutationObserver | ViaSetImmediate | ViaSetTimeout

definition select_timer :: "host \<Rightarrow> timer_kind" where
  "select_timer h =
     (if Promise_defined h \<and> Promise_native h then ViaPromise
      else if \<not> isIE h \<and> MutationObserver_defined h \<and>
              (MutationObserver_native h \<or> MutationObserver_legacy h) then ViaMutationObserver
      else if setImmediate_defined h \<and> setImmediate_native h then ViaSetImmediate
      else ViaSetTimeout)"

definition isUsingMicroTask :: "host \<Rightarrow> bool" where
  "isUsingMicroTask h = (select_timer h = ViaPromise \<or> select_timer h = ViaMutationObserver)"

definition timerFunc :: "host \<Rightarrow> world \<Rightarrow> world" where
  "timerFunc h s =
     (case select_timer h of
        ViaPromise \<Rightarrow>
          s\<lparr>host_calls := host_calls s @
              (Promise_then_flushCallbacks # (if isIOS h then [SetTimeout_noop] else []))\<rparr>
      | ViaMutationObserver \<Rightarrow>
          (let c = (counter s + 1) mod 2
           in s\<lparr>counter := c, host_calls := host_calls s @ [TextNode_data c]\<rparr>)
      | ViaSetImmediate \<Rightarrow> s\<lparr>host_calls := host_calls s @ [SetImmediate_flushCallbacks]\<rparr>
      | ViaSetTimeout \<Rightarrow> s\<lparr>host_calls := host_calls s @ [SetTimeout_flushCallbacks]\<rparr>)"

text \<open>
  \<^verbatim>\<open>nextTick(cb, ctx)\<close>. The closure is pushed with \<^verbatim>\<open>_resolve\<close> still unassigned; the
  assignment inside \<^verbatim>\<open>new Promise\<close> is an update of the entry this call pushed (position
  \<open>k\<close>: nothing between the push and the assignment removes an entry). The result is the
  address of the new promise, or \<open>None\<close> for \<^verbatim>\<open>undefined\<close>.
\<close>

definition nextTick :: "host \<Rightarrow> callback option \<Rightarrow> jsval \<Rightarrow> world \<Rightarrow> nat option \<times> world" where
  "nextTick h cb ctx s =
     (let k = length (callbacks s);
          s1 = s\<lparr>callbacks := callbacks s @
                  [\<lparr>entry_cb = cb, entry_ctx = ctx, entry_resolve = None\<rparr>]\<rparr>;
          s2 = (if \<not> pending s1 then timerFunc h (s1\<lparr>pending := True\<rparr>) else s1)
      in if cb = None \<and> Promise_defined h then
           (let p = length (promises s2)
            in (Some p,
                s2\<lparr>promises := promises s2 @ [Pending],
                   callbacks := (callbacks s2)[k := (callbacks s2 ! k)\<lparr>entry_resolve := Some p\<rparr>]\<rparr>))
         else (None, s2))"

text \<open>
  Modelled from the spec: \<^verbatim>\<open>handleError\<close> lives in \<^verbatim>\<open>./error\<close>, which is not part of the sources
  at hand. It is the global error-reporting hook; it records the error with the context and
  the label it was given, and returns.
\<close>

definition handleError :: "jsval \<Rightarrow> jsval \<Rightarrow> string \<Rightarrow> world \<Rightarrow> world" where
  "handleError e ctx info s = s\<lparr>events := events s @ [HandleError e ctx info]\<rparr>"

text \<open>
  \<^verbatim>\<open>_resolve(ctx)\<close> calls the resolve function the host's \<^verbatim>\<open>Promise\<close> handed to the executor,
  which behaves as ECMAScript specifies promise resolve functions.
  A value that is not an object fulfils the promise, and so does an object whose \<^verbatim>\<open>then\<close> is
  not callable. An object with a callable \<^verbatim>\<open>then\<close> is adopted: the promise follows it and is
  not fulfilled with the object. When reading \<^verbatim>\<open>then\<close> throws, the promise is rejected with
  the thrown value; nothing is thrown to the caller. A promise that is already resolved is
  left as it is.
\<close>

definition resolution :: "(nat \<Rightarrow> then_kind) \<Rightarrow> jsval \<Rightarrow> promise_state" where
  "resolution th v =
     (case v of
        JObj a \<Rightarrow>
          (case th a of
             Then_absent \<Rightarrow> Fulfilled v
           | Then_callable \<Rightarrow> Following v
           | Then_throws x \<Rightarrow> Rejected x)
      | _ \<Rightarrow> Fulfilled v)"

definition resolve_promise :: "nat \<Rightarrow> jsval \<Rightarrow> world \<Rightarrow> world" where
  "resolve_promise p v s =
     (if p < length (promises s) \<and> promises s ! p = Pending
      then s\<lparr>promises := (promises s)[p := resolution (thens s) v]\<rparr> else s)"

text \<open>
  The body of the pushed closure; \<open>call\<close> is \<^verbatim>\<open>cb.call(ctx)\<close>, \<open>None\<close> when it does not
  return.
\<close>

definition run_entry ::
  "(callback \<Rightarrow> jsval \<Rightarrow> world \<Rightarrow> outcome option) \<Rightarrow> entry \<Rightarrow> world \<Rightarrow> outcome option" where
  "run_entry call e s =
     (case entry_cb e of
        Some f \<Rightarrow>
          (case call f (entry_ctx e) s of
             None \<Rightarrow> None
           | Some (Normal s') \<Rightarrow> Some (Normal s')
           | Some (Abrupt x s') \<Rightarrow> Some (Normal (handleError x (entry_ctx e) ''nextTick'' s')))
      | None \<Rightarrow>
          (case entry_resolve e of
             Some p \<Rightarrow> Some (Normal (resolve_promise p (entry_ctx e) s))
           | None \<Rightarrow> Some (Normal s)))"

text \<open>The loop of \<^verbatim>\<open>flushCallbacks\<close> over \<^verbatim>\<open>copies\<close>: an exception would leave the loop.\<close>

fun invoke_copies ::
  "(callback \<Rightarrow> jsval \<Rightarrow> world \<Rightarrow> outcome option) \<Rightarrow> entry list \<Rightarrow> world \<Rightarrow> outcome option" where
  "invoke_copies call [] s = Some (Normal s)"
| "invoke_copies call (e # es) s =
     (case run_entry call e s of
        None \<Rightarrow> None
      | Some (Abrupt x s') \<Rightarrow> Some (Abrupt x s')
      | Some (Normal s') \<Rightarrow> invoke_copies call es s')"

definition flushCallbacks_with ::
  "(callback \<Rightarrow> jsval \<Rightarrow> world \<Rightarrow> outcome option) \<Rightarrow> world \<Rightarrow> outcome option" where
  "flushCallbacks_with call s =
     (let s1 = s\<lparr>pending := False\<rparr>;
          copies = callbacks s1;
          s2 = s1\<lparr>callbacks := []\<rparr>
      in invoke_copies call copies s2)"

section \<open>The scheduler\<close>

definition MAX_UPDATE_COUNT :: nat where
  "MAX_UPDATE_COUNT = 100"

text \<open>Sequencing: what follows runs only when what came before returned normally.\<close>

definition and_then :: "outcome option \<Rightarrow> (world \<Rightarrow> outcome option) \<Rightarrow> outcome option" where
  "and_then r f =
     (case r of None \<Rightarrow> None | Some (Abrupt x s) \<Rightarrow> Some (Abrupt x s) | Some (Normal s) \<Rightarrow> f s)"

definition resetSchedulerState :: "host \<Rightarrow> world \<Rightarrow> world" where
  "resetSchedulerState h s =
     (let s1 = s\<lparr>index := 0, queue := [], activatedChildren := []\<rparr>;
          s2 = s1\<lparr>has := (\<lambda>_. Absent)\<rparr>;
          s3 = (if \<not> production h then s2\<lparr>circular := Map.empty\<rparr> else s2)
      in s3\<lparr>waiting := False, flushing := False\<rparr>)"

text \<open>
  The backward scan of \<^verbatim>\<open>queueWatcher\<close>:
  \<^verbatim>\<open>while (i > index && queue[i].id > watcher.id) i--\<close>. It starts at \<^verbatim>\<open>queue.length - 1\<close>, so
  every read is in range.
\<close>

function scan_back :: "watcher list \<Rightarrow> nat \<Rightarrow> nat \<Rightarrow> int \<Rightarrow> int" where
  "scan_back q idx wid i =
     (if i > int idx \<and> watcher_id (q ! nat i) > wid then scan_back q idx wid (i - 1) else i)"
  by pat_completeness auto
termination
  by (relation "measure (\<lambda>(q, idx, wid, i). nat (i - int idx))") auto

declare scan_back.simps [simp del]

text \<open>
  \<^verbatim>\<open>xs.splice(start, 0, x)\<close>: a negative start counts from the end, and the start is clamped
  to the list.
\<close>

definition splice_in :: "'a list \<Rightarrow> int \<Rightarrow> 'a \<Rightarrow> 'a list" where
  "splice_in xs start x =
     (let n = int (length xs);
          k = (if start < 0 then max (n + start) 0 else min start n)
      in take (nat k) xs @ x # drop (nat k) xs)"

text \<open>
  \<^verbatim>\<open>queueWatcher(watcher)\<close>; \<open>flush\<close> is \<^verbatim>\<open>flushSchedulerQueue\<close>, called at once when the build
  is not a production build and \<^verbatim>\<open>config.async\<close> is off.
\<close>

definition queueWatcher ::
  "host \<Rightarrow> (world \<Rightarrow> outcome option) \<Rightarrow> watcher \<Rightarrow> world \<Rightarrow> outcome option" where
  "queueWatcher h flush w s =
     (let wid = watcher_id w in
      if has s wid \<noteq> Present then
        (let s1 = s\<lparr>has := (has s)(wid := Present)\<rparr>;
             s2 = (if \<not> flushing s1 then s1\<lparr>queue := queue s1 @ [w]\<rparr>
                   else (let i = scan_back (queue s1) (index s1) wid (int (length (queue s1)) - 1)
                         in s1\<lparr>queue := splice_in (queue s1) (i + 1) w\<rparr>))
         in if \<not> waiting s2 then
              (let s3 = s2\<lparr>waiting := True\<rparr>
               in if \<not> production h \<and> \<not> config_async h then flush s3
                  else Some (Normal (snd (nextTick h (Some FlushSchedulerQueue) JUndefined s3))))
            else Some (Normal s2))
      else Some (Normal s))"

definition queueActivatedComponent :: "nat \<Rightarrow> world \<Rightarrow> world" where
  "queueActivatedComponent v s =
     (let s1 = s\<lparr>vms := (vms s)(v := (vms s v)\<lparr>vm_inactive := False\<rparr>)\<rparr>
      in s1\<lparr>activatedChildren := activatedChildren s1 @ [v]\<rparr>)"

text \<open>
  External code runs its calls in order. A call of \<^verbatim>\<open>queueWatcher\<close> that throws (from a
  flush it started) ends the code that made it.
\<close>

fun run_script ::
  "host \<Rightarrow> (world \<Rightarrow> outcome option) \<Rightarrow> action list \<Rightarrow> world \<Rightarrow> outcome option" where
  "run_script h flush [] s = Some (Normal s)"
| "run_script h flush (Call_queueWatcher w # as) s =
     and_then (queueWatcher h flush w s) (run_script h flush as)"
| "run_script h flush (Call_queueActivatedComponent v # as) s =
     run_script h flush as (queueActivatedComponent v s)"
| "run_script h flush (Call_nextTick cb ctx # as) s =
     run_script h flush as (snd (nextTick h cb ctx s))"
| "run_script h flush (Set_component v c # as) s =
     run_script h flush as (s\<lparr>vms := (vms s)(v := c)\<rparr>)"
| "run_script h flush (Set_then a k # as) s =
     run_script h flush as (s\<lparr>thens := (thens s)(a := k)\<rparr>)"
| "run_script h flush (Throw x # as) s = Some (Abrupt x s)"

text \<open>
  Modelled from the spec: \<^verbatim>\<open>warn\<close> lives in \<^verbatim>\<open>../util/index\<close>, which is not part of the sources
  at hand. It reports the diagnostic for the component it is given, and returns.
\<close>

definition warn :: "string \<Rightarrow> nat \<Rightarrow> world \<Rightarrow> world" where
  "warn msg v s = s\<lparr>events := events s @ [Warned msg v]\<rparr>"

definition loop_message :: "watcher \<Rightarrow> string" where
  "loop_message w =
     ''You may have an infinite update loop '' @
     (if user w then ''in watcher with expression '' @ [CHR 0x22] @ expression w @ [CHR 0x22]
      else ''in a component render function.'')"

text \<open>
  The loop of \<^verbatim>\<open>flushSchedulerQueue\<close>, from the test \<^verbatim>\<open>index < queue.length\<close> on. The queue can
  grow while it is drained, so the first argument bounds the number of iterations that are
  followed; \<open>None\<close> says the bound was reached. \<open>ext\<close> runs external code.
\<close>

fun flush_loop ::
  "nat \<Rightarrow> host \<Rightarrow> env \<Rightarrow> (action list \<Rightarrow> world \<Rightarrow> outcome option) \<Rightarrow> world \<Rightarrow> outcome option" where
  "flush_loop 0 h E ext s = (if index s < length (queue s) then None else Some (Normal s))"
| "flush_loop (Suc n) h E ext s =
     (if index s < length (queue s) then
        (let watcher = queue s ! index s in
         and_then
           (if has_before watcher
            then (let s0 = s\<lparr>events := events s @ [Before_called (watcher_id watcher)]\<rparr>
                  in ext (before_of E watcher s0) s0)
            else Some (Normal s))
           (\<lambda>s1.
              let wid = watcher_id watcher;
                  s2 = s1\<lparr>has := (has s1)(wid := Null)\<rparr>;
                  s3 = s2\<lparr>events := events s2 @ [Run_called wid]\<rparr>
              in and_then (ext (run_of E watcher s3) s3)
                   (\<lambda>s4.
                      if \<not> production h \<and> has s4 wid = Present then
                        (let c = (case circular s4 wid of None \<Rightarrow> 0 | Some k \<Rightarrow> k) + 1;
                             s5 = s4\<lparr>circular := (circular s4)(wid \<mapsto> c)\<rparr>
                         in if c > MAX_UPDATE_COUNT
                            then Some (Normal (warn (loop_message watcher) (vm watcher) s5))
                            else flush_loop n h E ext (s5\<lparr>index := index s5 + 1\<rparr>))
                      else flush_loop n h E ext (s4\<lparr>index := index s4 + 1\<rparr>))))
      else Some (Normal s))"

text \<open>
  Modelled from the spec: \<^verbatim>\<open>activateChildComponent\<close> and \<^verbatim>\<open>callHook\<close> live in
  \<^verbatim>\<open>../instance/lifecycle\<close>, which is not part of the sources at hand. Each is recorded as a
  call and then runs the component's hook, which is external code.
\<close>

definition activateChildComponent ::
  "env \<Rightarrow> (action list \<Rightarrow> world \<Rightarrow> outcome option) \<Rightarrow> nat \<Rightarrow> world \<Rightarrow> outcome option" where
  "activateChildComponent E ext v s =
     (let s1 = s\<lparr>events := events s @ [Activate_child v]\<rparr> in ext (activated_of E v s1) s1)"

definition callHook_updated ::
  "env \<Rightarrow> (action list \<Rightarrow> world \<Rightarrow> outcome option) \<Rightarrow> nat \<Rightarrow> world \<Rightarrow> outcome option" where
  "callHook_updated E ext v s =
     (let s1 = s\<lparr>events := events s @ [Hook_updated v]\<rparr> in ext (updated_of E v s1) s1)"

fun callActivatedHooks ::
  "env \<Rightarrow> (action list \<Rightarrow> world \<Rightarrow> outcome option) \<Rightarrow> nat list \<Rightarrow> world \<Rightarrow> outcome option" where
  "callActivatedHooks E ext [] s = Some (Normal s)"
| "callActivatedHooks E ext (v # vs) s =
     and_then
       (activateChildComponent E ext v (s\<lparr>vms := (vms s)(v := (vms s v)\<lparr>vm_inactive := True\<rparr>)\<rparr>))
       (callActivatedHooks E ext vs)"

text \<open>
  \<^verbatim>\<open>let i = queue.length; while (i--) { ... queue[i] ... }\<close>: the first argument is the value of
  \<open>i\<close> when the test is made.
\<close>

fun updated_from ::
  "nat \<Rightarrow> env \<Rightarrow> (action list \<Rightarrow> world \<Rightarrow> outcome option) \<Rightarrow> watcher list \<Rightarrow> world \<Rightarrow>
   outcome option" where
  "updated_from 0 E ext q s = Some (Normal s)"
| "updated_from (Suc i) E ext q s =
     (let watcher = q ! i; v = vm watcher
      in and_then
           (if vm_watcher (vms s v) = Some (watcher_id watcher) \<and> vm_isMounted (vms s v) \<and>
               \<not> vm_isDestroyed (vms s v)
            then callHook_updated E ext v s else Some (Normal s))
           (updated_from i E ext q))"

definition callUpdatedHooks ::
  "env \<Rightarrow> (action list \<Rightarrow> world \<Rightarrow> outcome option) \<Rightarrow> watcher list \<Rightarrow> world \<Rightarrow> outcome option" where
  "callUpdatedHooks E ext q s = updated_from (length q) E ext q s"

text \<open>The state in which the loop of \<^verbatim>\<open>flushSchedulerQueue\<close> starts.\<close>

definition flush_start :: "world \<Rightarrow> world" where
  "flush_start s =
     (let s1 = s\<lparr>currentFlushTimestamp := clock s\<rparr>;
          s2 = s1\<lparr>flushing := True\<rparr>;
          s3 = s2\<lparr>queue := sort_key watcher_id (queue s2)\<rparr>
      in s3\<lparr>index := 0\<rparr>)"

text \<open>What \<^verbatim>\<open>flushSchedulerQueue\<close> does once the loop is left, normally or by the break.\<close>

definition flush_finish ::
  "host \<Rightarrow> env \<Rightarrow> (action list \<Rightarrow> world \<Rightarrow> outcome option) \<Rightarrow> world \<Rightarrow> outcome option" where
  "flush_finish h E ext s =
     (let activatedQueue = activatedChildren s;
          updatedQueue = queue s;
          s1 = resetSchedulerState h s
      in and_then (callActivatedHooks E ext activatedQueue s1)
           (\<lambda>s2. and_then (callUpdatedHooks E ext updatedQueue s2)
              (\<lambda>s3. Some (Normal (if devtools_on h
                                   then s3\<lparr>events := events s3 @ [Devtools_flush]\<rparr> else s3)))))"

text \<open>
  \<^verbatim>\<open>flushSchedulerQueue\<close>. Its first argument bounds both the iterations of its loop and the
  depth of the flushes that external code starts from inside it (a hook that queues a watcher
  when \<^verbatim>\<open>config.async\<close> is off).
\<close>

primrec flushSchedulerQueue :: "nat \<Rightarrow> host \<Rightarrow> env \<Rightarrow> world \<Rightarrow> outcome option" where
  "flushSchedulerQueue 0 h E s = None"
| "flushSchedulerQueue (Suc n) h E s =
     and_then (flush_loop n h E (run_script h (flushSchedulerQueue n h E)) (flush_start s))
       (flush_finish h E (run_script h (flushSchedulerQueue n h E)))"

text \<open>
  \<^verbatim>\<open>cb.call(ctx)\<close> for the two kinds of callback, and \<^verbatim>\<open>flushCallbacks\<close> as the host runs it.
\<close>

definition call_callback :: "nat \<Rightarrow> host \<Rightarrow> env \<Rightarrow> callback \<Rightarrow> jsval \<Rightarrow> world \<Rightarrow> outcome option" where
  "call_callback n h E f ctx s =
     (case f of
        FlushSchedulerQueue \<Rightarrow> flushSchedulerQueue n h E s
      | UserFn k \<Rightarrow>
          (let s1 = s\<lparr>events := events s @ [Cb_called k ctx]\<rparr>
           in run_script h (flushSchedulerQueue n h E) (fn_of E k s1) s1))"

definition flushCallbacks :: "nat \<Rightarrow> host \<Rightarrow> env \<Rightarrow> world \<Rightarrow> outcome option" where
  "flushCallbacks n h E s = flushCallbacks_with (call_callback n h E) s"

section \<open>Observations on outcomes and traces\<close>

text \<open>The state in which a call ended, normally or by an exception.\<close>

definition world_of :: "outcome \<Rightarrow> world" where
  "world_of r = (case r of Normal s \<Rightarrow> s | Abrupt x s \<Rightarrow> s)"

text \<open>
  A host call that schedules \<^verbatim>\<open>flushCallbacks\<close>; the empty timer that accompanies
  \<^verbatim>\<open>p.then(flushCallbacks)\<close> on iOS schedules nothing.
\<close>

definition schedules_flush :: "host_call \<Rightarrow> bool" where
  "schedules_flush c = (c \<noteq> SetTimeout_noop)"

text \<open>The callers' callbacks invoked, the jobs run, the updated hooks called and the
  diagnostics reported, each in the order of the trace.\<close>

definition invocations :: "event list \<Rightarrow> (nat \<times> jsval) list" where
  "invocations evs = concat (map (\<lambda>e. case e of Cb_called k c \<Rightarrow> [(k, c)] | _ \<Rightarrow> []) evs)"

definition runs :: "event list \<Rightarrow> nat list" where
  "runs evs = concat (map (\<lambda>e. case e of Run_called i \<Rightarrow> [i] | _ \<Rightarrow> []) evs)"

definition updated_hooks :: "event list \<Rightarrow> nat list" where
  "updated_hooks evs = concat (map (\<lambda>e. case e of Hook_updated v \<Rightarrow> [v] | _ \<Rightarrow> []) evs)"

definition warnings :: "event list \<Rightarrow> (string \<times> nat) list" where
  "warnings evs = concat (map (\<lambda>e. case e of Warned m v \<Rightarrow> [(m, v)] | _ \<Rightarrow> []) evs)"

text \<open>
  What external code cannot change between two states: the promises that exist stay as they
  are (new ones may be added), no caller's callback is invoked, and the pending closures stay
  where they are (new ones may be pushed behind them, each resolving a promise created in
  between, if any).
\<close>

definition stable :: "world \<Rightarrow> world \<Rightarrow> bool" where
  "stable s s' =
     (prefix (promises s) (promises s') \<and> invocations (events s') = invocations (events s) \<and>
      prefix (callbacks s) (callbacks s') \<and>
      (\<forall>e\<in>set (drop (length (callbacks s)) (callbacks s')).
         case entry_resolve e of None \<Rightarrow> True
         | Some q \<Rightarrow> length (promises s) \<le> q \<and> q < length (promises s')))"

text \<open>
  Every pending closure that captured a resolve function captured the one of a promise that
  exists. This holds when the modules are loaded and is kept by every call.
\<close>

definition resolvers_bounded :: "world \<Rightarrow> bool" where
  "resolvers_bounded s =
     (\<forall>e\<in>set (callbacks s).
        case entry_resolve e of None \<Rightarrow> True | Some q \<Rightarrow> q < length (promises s))"

text \<open>A value the resolve function of a promise does not fulfil the promise with.\<close>

definition thenable :: "(nat \<Rightarrow> then_kind) \<Rightarrow> jsval \<Rightarrow> bool" where
  "thenable th v = (case v of JObj a \<Rightarrow> th a \<noteq> Then_absent | _ \<Rightarrow> False)"

text \<open>\<^verbatim>\<open>circular[id] || 0\<close>.\<close>

definition circular_count :: "world \<Rightarrow> nat \<Rightarrow> nat" where
  "circular_count s i = (case circular s i of None \<Rightarrow> 0 | Some c \<Rightarrow> c)"

text \<open>
  The value external code throws when flushes are deferred: there only a \<^verbatim>\<open>throw\<close> of its own
  can end it, the exported functions return normally.
\<close>

fun thrown :: "action list \<Rightarrow> jsval option" where
  "thrown [] = None"
| "thrown (Throw x # as) = Some x"
| "thrown (a # as) = thrown as"

text \<open>
  The test of \<^verbatim>\<open>callUpdatedHooks\<close>, on a table of components: the job is the render watcher of
  its component, and the component is mounted and not destroyed.
\<close>

definition is_primary :: "(nat \<Rightarrow> component) \<Rightarrow> watcher \<Rightarrow> bool" where
  "is_primary V w =
     (vm_watcher (V (vm w)) = Some (watcher_id w) \<and> vm_isMounted (V (vm w)) \<and>
      \<not> vm_isDestroyed (V (vm w)))"

section \<open>Closed forms used to state the lemmas\<close>

text \<open>
  A call of \<^verbatim>\<open>nextTick\<close> with the caller's function \<open>k\<close> and the context \<open>c\<close>, and the entry
  it pushes; the entry \<^verbatim>\<open>nextTick(flushSchedulerQueue)\<close> pushes.
\<close>

definition nextTick_call :: "nat \<times> jsval \<Rightarrow> action" where
  "nextTick_call r = Call_nextTick (Some (UserFn (fst r))) (snd r)"

definition user_entry :: "nat \<times> jsval \<Rightarrow> entry" where
  "user_entry r = \<lparr>entry_cb = Some (UserFn (fst r)), entry_ctx = snd r, entry_resolve = None\<rparr>"

definition flush_entry :: entry where
  "flush_entry = \<lparr>entry_cb = Some FlushSchedulerQueue, entry_ctx = JUndefined, entry_resolve = None\<rparr>"

text \<open>The calls one iteration of the flush loop makes for a job that calls nothing back.\<close>

definition job_events :: "watcher \<Rightarrow> event list" where
  "job_events w =
     (if has_before w then [Before_called (watcher_id w)] else []) @ [Run_called (watcher_id w)]"

text \<open>
  What the flush loop does to the state while it runs the jobs \<open>ws\<close>, none of which calls
  anything back; what \<^verbatim>\<open>callActivatedHooks\<close> does for components whose hook calls nothing
  back; and the state a whole flush ends in when neither jobs nor hooks call anything back.
  The lemmas \<open>flush_loop_quiet\<close>, \<open>callActivatedHooks_quiet\<close> and
  \<open>flushSchedulerQueue_quiet\<close> prove that the code computes these states.
\<close>

definition loop_effect :: "watcher list \<Rightarrow> world \<Rightarrow> world" where
  "loop_effect ws s =
     s\<lparr>has := foldl (\<lambda>H w. H(watcher_id w := Null)) (has s) ws,
       index := index s + length ws,
       events := events s @ concat (map job_events ws)\<rparr>"

definition activation_effect :: "nat list \<Rightarrow> world \<Rightarrow> world" where
  "activation_effect vs s =
     s\<lparr>vms := foldl (\<lambda>V v. V(v := (V v)\<lparr>vm_inactive := True\<rparr>)) (vms s) vs,
       events := events s @ map Activate_child vs\<rparr>"

definition quiet_flush :: "host \<Rightarrow> world \<Rightarrow> world" where
  "quiet_flush h s =
     (let q = sort_key watcher_id (queue s);
          s1 = loop_effect q (flush_start s);
          s2 = activation_effect (activatedChildren s) (resetSchedulerState h s1);
          s3 = s2\<lparr>events := events s2 @
                 map (\<lambda>w. Hook_updated (vm w)) (filter (is_primary (vms s)) (rev q))\<rparr>
      in if devtools_on h then s3\<lparr>events := events s3 @ [Devtools_flush]\<rparr> else s3)"

text \<open>
  The state after the iteration of the flush loop that runs, for the time \<open>j + 1\<close>, a job
  \<open>w\<close> that registers itself again, before the cursor moves on (lemma \<open>self_loop_step\<close>):
  \<open>pre\<close> are the jobs that ran before \<open>w\<close>, \<open>post\<close> the jobs queued behind it.
\<close>

definition after_self_run :: "watcher list \<Rightarrow> nat \<Rightarrow> watcher \<Rightarrow> watcher list \<Rightarrow> world \<Rightarrow> world" where
  "after_self_run pre j w post t =
     t\<lparr>has := (has t)(watcher_id w := Present),
       events := events t @ job_events w,
       queue := pre @ replicate (Suc (Suc j)) w @ post,
       circular := (circular t)(watcher_id w \<mapsto> Suc j)\<rparr>"

section \<open>Example hosts, jobs and states\<close>

text \<open>
  A development build on a browser with a native \<^verbatim>\<open>Promise\<close>, and the same build on a host
  with no \<^verbatim>\<open>Promise\<close> global and no \<^verbatim>\<open>MutationObserver\<close>.
\<close>

definition host_dev :: host where
  "host_dev = \<lparr>Promise_defined = True, Promise_native = True, isIE = False, isIOS = False,
     MutationObserver_defined = True, MutationObserver_native = True, MutationObserver_legacy = False,
     setImmediate_defined = False, setImmediate_native = False,
     production = False, config_async = True, devtools_on = False\<rparr>"

definition host_no_promise :: host where
  "host_no_promise = host_dev\<lparr>Promise_defined := False, Promise_native := False,
     MutationObserver_defined := False, MutationObserver_native := False\<rparr>"

text \<open>
  Component \<open>v\<close> is mounted and has the render watcher with id \<open>v\<close>: \<open>job v\<close>. The user
  watcher \<open>watch_job\<close> belongs to component 2.
\<close>

definition component0 :: "nat \<Rightarrow> component" where
  "component0 v = \<lparr>vm_watcher = Some v, vm_isMounted = True, vm_isDestroyed = False, vm_inactive = False\<rparr>"

definition job :: "nat \<Rightarrow> watcher" where
  "job i = \<lparr>watcher_id = i, user = False, expression = [], vm = i, has_before = False\<rparr>"

definition watch_job :: watcher where
  "watch_job = \<lparr>watcher_id = 5, user = True, expression = ''total'', vm = 2, has_before = True\<rparr>"

text \<open>
  The two modules as they are when loaded, with nothing queued; no object has a \<^verbatim>\<open>then\<close>.
\<close>

definition world0 :: world where
  "world0 = \<lparr>callbacks = [], pending = False, counter = 1, queue = [], activatedChildren = [],
     has = (\<lambda>_. Absent), circular = Map.empty, waiting = False, flushing = False, index = 0,
     currentFlushTimestamp = 0, vms = component0, thens = (\<lambda>_. Then_absent), promises = [],
     host_calls = [], events = [], clock = 0\<rparr>"

text \<open>The modules as loaded, on a page where the object at address 0 has a \<^verbatim>\<open>then\<close> method.\<close>

definition world_thenable :: world where
  "world_thenable = world0\<lparr>thens := (thens world0)(0 := Then_callable)\<rparr>"

text \<open>
  The state after \<^verbatim>\<open>queueWatcher\<close> has been called on the jobs \<open>ws\<close>, in this order, on
  \<open>host_dev\<close> (lemma \<open>queued_reached\<close>): the jobs are queued and marked and one flush is
  scheduled.
\<close>

definition queued :: "watcher list \<Rightarrow> world" where
  "queued ws = world0\<lparr>queue := ws,
     has := (\<lambda>i. if i \<in> set (map watcher_id ws) then Present else Absent),
     waiting := True, callbacks := [flush_entry], pending := True,
     host_calls := [Promise_then_flushCallbacks]\<rparr>"

text \<open>
  The flush of \<open>queued [job 8, job 1, job 5, job 2]\<close> at the moment job 2 runs: job 1 has run,
  the cursor is on job 2.
\<close>

definition mid_flush :: world where
  "mid_flush = world0\<lparr>flushing := True, waiting := True, index := 1,
     queue := [job 1, job 2, job 5, job 8],
     has := (\<lambda>i. if i = 5 \<or> i = 8 then Present else if i = 1 \<or> i = 2 then Null else Absent),
     host_calls := [Promise_then_flushCallbacks],
     events := [Run_called 1, Run_called 2]\<rparr>"

text \<open>External code: none; a callback 2 that throws; a job 2 that registers job 4; an updated
  hook of component 1 that registers job 1; a job \<open>k\<close> that registers itself on every run.\<close>

definition quiet_env :: env where
  "quiet_env = \<lparr>run_of = (\<lambda>w s. []), before_of = (\<lambda>w s. []), fn_of = (\<lambda>k s. []),
     updated_of = (\<lambda>v s. []), activated_of = (\<lambda>v s. [])\<rparr>"


definition requeue_env :: env where
  "requeue_env = quiet_env\<lparr>run_of := (\<lambda>w s. if watcher_id w = 2 then [Call_queueWatcher (job 4)] else [])\<rparr>"

definition rehook_env :: env where
  "rehook_env = quiet_env\<lparr>updated_of := (\<lambda>v s. if v = 1 then [Call_queueWatcher (job 1)] else [])\<rparr>"

definition loop_env :: "nat \<Rightarrow> env" where
  "loop_env k = quiet_env\<lparr>run_of := (\<lambda>w s. if watcher_id w = k then [Call_queueWatcher w] else [])\<rparr>"

definition five_requests :: "(nat \<times> jsval) list" where
  "five_requests = [(1, JUndefined), (2, JStr ''a''), (3, JUndefined), (4, JObj 7), (5, JUndefined)]"

section \<open>Facts about nextTick\<close>

lemma world_of_simps [simp]: "world_of (Normal s) = s" "world_of (Abrupt x s) = s"
  by (simp_all add: world_of_def)

lemma timerFunc_frame:
  "callbacks (timerFunc h s) = callbacks s" "pending (timerFunc h s) = pending s"
  "events (timerFunc h s) = events s" "promises (timerFunc h s) = promises s"
  "queue (timerFunc h s) = queue s" "has (timerFunc h s) = has s" "waiting (timerFunc h s) = waiting s"
  "flushing (timerFunc h s) = flushing s" "index (timerFunc h s) = index s" "circular (timerFunc h s) = circular s"
  "activatedChildren (timerFunc h s) = activatedChildren s" "vms (timerFunc h s) = vms s"
  by (simp_all add: timerFunc_def Let_def split: timer_kind.splits)

lemma timerFunc_one_request:
  "length (filter schedules_flush (host_calls (timerFunc h s))) =
   Suc (length (filter schedules_flush (host_calls s)))"
  by (simp add: timerFunc_def Let_def schedules_flush_def split: timer_kind.splits)

lemma nextTick_fst: "fst (nextTick h cb ctx s) = (if cb = None \<and> Promise_defined h then Some (length (promises s)) else None)"
  by (simp add: nextTick_def Let_def timerFunc_frame)

lemma nextTick_callbacks:
  "callbacks (snd (nextTick h cb ctx s)) = callbacks s @
     [\<lparr>entry_cb = cb, entry_ctx = ctx,
       entry_resolve = (if cb = None \<and> Promise_defined h then Some (length (promises s)) else None)\<rparr>]"
  by (simp add: nextTick_def Let_def timerFunc_frame)

lemma nextTick_promises:
  "promises (snd (nextTick h cb ctx s)) =
     promises s @ (if cb = None \<and> Promise_defined h then [Pending] else [])"
  by (simp add: nextTick_def Let_def timerFunc_frame)

lemma nextTick_host_calls:
  "host_calls (snd (nextTick h cb ctx s)) = (if pending s then host_calls s else host_calls (timerFunc h s))"
  by (simp add: nextTick_def Let_def timerFunc_def split: timer_kind.splits)

lemma nextTick_frame:
  "pending (snd (nextTick h cb ctx s))"
  "events (snd (nextTick h cb ctx s)) = events s"
  "queue (snd (nextTick h cb ctx s)) = queue s"
  "has (snd (nextTick h cb ctx s)) = has s"
  "waiting (snd (nextTick h cb ctx s)) = waiting s"
  "flushing (snd (nextTick h cb ctx s)) = flushing s"
  "index (snd (nextTick h cb ctx s)) = index s"
  "circular (snd (nextTick h cb ctx s)) = circular s"
  "activatedChildren (snd (nextTick h cb ctx s)) = activatedChildren s"
  "vms (snd (nextTick h cb ctx s)) = vms s"
  by (simp_all add: nextTick_def Let_def timerFunc_frame)


section \<open>External code when flushes are deferred\<close>

lemma invocations_append [simp]: "invocations (xs @ ys) = invocations xs @ invocations ys"
  by (simp add: invocations_def)

lemma invocations_simps [simp]:
  "invocations [] = []"
  "invocations (Cb_called k c # es) = (k, c) # invocations es"
  "invocations (HandleError x c i # es) = invocations es"
  by (simp_all add: invocations_def)

lemma queueWatcher_async:
  assumes "production h \<or> config_async h"
  shows "\<exists>s'. queueWatcher h flush w s = Some (Normal s') \<and> events s' = events s"
  using assms by (auto simp: queueWatcher_def Let_def nextTick_frame)

lemma run_script_async:
  assumes "production h \<or> config_async h"
  shows "\<exists>s'. run_script h flush as s = Some (case thrown as of None \<Rightarrow> Normal s' | Some x \<Rightarrow> Abrupt x s')
            \<and> events s' = events s"
proof (induction as arbitrary: s)
  case Nil
  then show ?case by simp
next
  case (Cons a as)
  show ?case
  proof (cases a)
    case (Call_queueWatcher w)
    obtain s1 where q: "queueWatcher h flush w s = Some (Normal s1)" "events s1 = events s"
      using queueWatcher_async [OF assms] by blast
    from Cons.IH [of s1] q Call_queueWatcher show ?thesis
      by (auto simp: and_then_def)
  next
    case (Call_queueActivatedComponent v)
    with Cons.IH [of "queueActivatedComponent v s"] show ?thesis
      by (auto simp: queueActivatedComponent_def Let_def)
  next
    case (Call_nextTick cb ctx)
    with Cons.IH [of "snd (nextTick h cb ctx s)"] show ?thesis
      by (auto simp: nextTick_frame)
  next
    case (Set_component v c)
    with Cons.IH [of "s\<lparr>vms := (vms s)(v := c)\<rparr>"] show ?thesis
      by auto
  next
    case (Set_then a k)
    with Cons.IH [of "s\<lparr>thens := (thens s)(a := k)\<rparr>"] show ?thesis
      by auto
  next
    case (Throw x)
    then show ?thesis by simp
  qed
qed

lemma run_entry_user_async:
  assumes "production h \<or> config_async h"
  shows "\<exists>s'. run_entry (call_callback n h E) (user_entry (k, c)) s = Some (Normal s') \<and>
     events s' = events s @ Cb_called k c #
       (case thrown (fn_of E k (s\<lparr>events := events s @ [Cb_called k c]\<rparr>)) of
          None \<Rightarrow> [] | Some x \<Rightarrow> [HandleError x c ''nextTick''])"
proof -
  let ?s1 = "s\<lparr>events := events s @ [Cb_called k c]\<rparr>"
  obtain s2 where r: "run_script h (flushSchedulerQueue n h E) (fn_of E k ?s1) ?s1 =
      Some (case thrown (fn_of E k ?s1) of None \<Rightarrow> Normal s2 | Some x \<Rightarrow> Abrupt x s2)"
      "events s2 = events ?s1"
    using run_script_async [OF assms] by blast
  then show ?thesis
    by (cases "thrown (fn_of E k ?s1)")
       (simp_all add: run_entry_def user_entry_def call_callback_def Let_def handleError_def)
qed

lemma invoke_copies_user_async:
  assumes "production h \<or> config_async h"
  shows "\<exists>s'. invoke_copies (call_callback n h E) (map user_entry reqs) s = Some (Normal s') \<and>
     invocations (events s') = invocations (events s) @ reqs"
proof (induction reqs arbitrary: s)
  case Nil
  then show ?case by simp
next
  case (Cons r reqs)
  obtain k c where r: "r = (k, c)" by (cases r)
  obtain s1 where s1: "run_entry (call_callback n h E) (user_entry (k, c)) s = Some (Normal s1)"
    "events s1 = events s @ Cb_called k c #
       (case thrown (fn_of E k (s\<lparr>events := events s @ [Cb_called k c]\<rparr>)) of
          None \<Rightarrow> [] | Some x \<Rightarrow> [HandleError x c ''nextTick''])"
    using run_entry_user_async [OF assms] by blast
  have inv: "invocations (events s1) = invocations (events s) @ [(k, c)]"
    by (simp add: s1(2) split: option.splits)
  from Cons.IH [of s1] s1(1) inv r show ?case by auto
qed


lemma nextTick_calls_pending:
  assumes "pending s"
  shows "\<exists>s'. run_script h flush (map nextTick_call reqs) s = Some (Normal s') \<and>
     host_calls s' = host_calls s \<and> pending s' \<and> events s' = events s \<and>
     callbacks s' = callbacks s @ map user_entry reqs"
  using assms
proof (induction reqs arbitrary: s)
  case Nil
  then show ?case by simp
next
  case (Cons r reqs)
  let ?s1 = "snd (nextTick h (Some (UserFn (fst r))) (snd r) s)"
  have "pending ?s1" by (simp add: nextTick_frame)
  from Cons.IH [OF this] Cons.prems show ?case
    by (auto simp: nextTick_call_def nextTick_host_calls nextTick_frame nextTick_callbacks user_entry_def)
qed



section \<open>What external code leaves alone\<close>

text \<open>
  Jobs, hooks and callers' functions reach the two modules only through \<^verbatim>\<open>queueWatcher\<close>,
  \<^verbatim>\<open>queueActivatedComponent\<close> and \<^verbatim>\<open>nextTick\<close>, and a flush of the scheduler they start runs
  jobs and hooks only. So whatever they do, in every mode and for every fuel, the state they
  return is \<open>stable\<close> with respect to the state they started in: no promise is settled and no
  pushed callback is invoked. Only the loop of \<^verbatim>\<open>flushCallbacks\<close> does either.
\<close>

lemma stable_refl [simp]: "stable s s"
  by (simp add: stable_def)

lemma stable_iff:
  "stable s s' \<longleftrightarrow>
     prefix (promises s) (promises s') \<and> invocations (events s') = invocations (events s) \<and>
     (\<exists>new. callbacks s' = callbacks s @ new \<and>
        (\<forall>e\<in>set new. case entry_resolve e of None \<Rightarrow> True
           | Some q \<Rightarrow> length (promises s) \<le> q \<and> q < length (promises s')))"
  by (auto simp: stable_def prefix_def)

lemma stable_trans:
  assumes "stable a b" and "stable b c"
  shows "stable a c"
proof -
  from assms(1) obtain new1 where 1: "prefix (promises a) (promises b)"
    "invocations (events b) = invocations (events a)" "callbacks b = callbacks a @ new1"
    "\<forall>e\<in>set new1. case entry_resolve e of None \<Rightarrow> True
        | Some q \<Rightarrow> length (promises a) \<le> q \<and> q < length (promises b)"
    unfolding stable_iff by blast
  from assms(2) obtain new2 where 2: "prefix (promises b) (promises c)"
    "invocations (events c) = invocations (events b)" "callbacks c = callbacks b @ new2"
    "\<forall>e\<in>set new2. case entry_resolve e of None \<Rightarrow> True
        | Some q \<Rightarrow> length (promises b) \<le> q \<and> q < length (promises c)"
    unfolding stable_iff by blast
  have le: "length (promises a) \<le> length (promises b)" "length (promises b) \<le> length (promises c)"
    using 1(1) 2(1) by (simp_all add: prefix_length_le)
  have "\<forall>e\<in>set (new1 @ new2). case entry_resolve e of None \<Rightarrow> True
        | Some q \<Rightarrow> length (promises a) \<le> q \<and> q < length (promises c)"
    using 1(4) 2(4) le by (fastforce split: option.splits)
  moreover have "callbacks c = callbacks a @ (new1 @ new2)"
    using 1(3) 2(3) by simp
  moreover have "prefix (promises a) (promises c)"
    using 1(1) 2(1) by (rule prefix_order.trans)
  ultimately show ?thesis
    unfolding stable_iff using 1(2) 2(2) by metis
qed

lemma stable_from:
  "stable s0 s' \<Longrightarrow> promises s0 = promises s \<Longrightarrow>
   invocations (events s0) = invocations (events s) \<Longrightarrow> callbacks s0 = callbacks s \<Longrightarrow>
   stable s s'"
  by (simp add: stable_def cong: option.case_cong)

lemma stable_to:
  "stable s s0 \<Longrightarrow> promises s' = promises s0 \<Longrightarrow>
   invocations (events s') = invocations (events s0) \<Longrightarrow> callbacks s' = callbacks s0 \<Longrightarrow>
   stable s s'"
  by (simp add: stable_def cong: option.case_cong)

lemma invocations_other [simp]:
  "invocations [Before_called i] = []" "invocations [Run_called i] = []"
  "invocations [Warned m v] = []" "invocations [Hook_updated v] = []"
  "invocations [Activate_child v] = []" "invocations [Devtools_flush] = []"
  by (simp_all add: invocations_def)

lemma and_thenE:
  assumes "and_then r f = Some r'"
  obtains (abrupt) x s where "r = Some (Abrupt x s)" "r' = Abrupt x s"
    | (normal) s where "r = Some (Normal s)" "f s = Some r'"
  using assms by (auto simp: and_then_def split: option.splits outcome.splits)

lemma and_then_keeps:
  assumes "and_then (g s) f = Some r"
    and "\<And>r1. g s = Some r1 \<Longrightarrow> stable s (world_of r1)"
    and "\<And>s1 r2. f s1 = Some r2 \<Longrightarrow> stable s1 (world_of r2)"
  shows "stable s (world_of r)"
  using assms(1)
proof (cases rule: and_thenE)
  case (abrupt x s')
  then show ?thesis using assms(2) by fastforce
next
  case (normal s')
  then show ?thesis using assms(2) [of "Normal s'"] assms(3) [of s' r]
    by (auto intro: stable_trans)
qed

lemma nextTick_stable: "stable s (snd (nextTick h cb ctx s))"
  by (simp add: stable_def nextTick_promises nextTick_callbacks nextTick_frame)

lemma queueWatcher_keeps:
  assumes fl: "\<And>s r. flush s = Some r \<Longrightarrow> stable s (world_of r)"
    and "queueWatcher h flush w s = Some r"
  shows "stable s (world_of r)"
proof -
  have a: "stable s (world_of r)"
    if "flush s' = Some r" "promises s' = promises s" "events s' = events s"
      "callbacks s' = callbacks s" for s'
    using fl [OF that(1)] that(2,3,4) by (simp add: stable_def cong: option.case_cong)
  have b: "stable s (snd (nextTick h cb ctx s'))"
    if "promises s' = promises s" "events s' = events s" "callbacks s' = callbacks s" for s' cb ctx
    using nextTick_stable [of s' h cb ctx] that by (simp add: stable_def cong: option.case_cong)
  show ?thesis
    using assms(2)
    by (auto simp: queueWatcher_def Let_def split: if_splits intro!: a b)
      (simp_all add: stable_def)
qed

lemma run_script_keeps:
  assumes fl: "\<And>s r. flush s = Some r \<Longrightarrow> stable s (world_of r)"
  shows "run_script h flush as s = Some r \<Longrightarrow> stable s (world_of r)"
proof (induction as arbitrary: s r)
  case Nil
  then show ?case by auto
next
  case (Cons a as)
  show ?case
  proof (cases a)
    case (Call_queueWatcher w)
    with Cons.prems have "and_then (queueWatcher h flush w s) (run_script h flush as) = Some r"
      by simp
    then show ?thesis
      by (rule and_then_keeps) (auto intro: queueWatcher_keeps [OF fl] Cons.IH)
  next
    case (Call_queueActivatedComponent v)
    with Cons.prems Cons.IH [of "queueActivatedComponent v s" r]
    have "stable (queueActivatedComponent v s) (world_of r)" by simp
    then show ?thesis
      by (rule stable_from) (simp_all add: queueActivatedComponent_def Let_def)
  next
    case (Call_nextTick cb ctx)
    with Cons.prems Cons.IH [of "snd (nextTick h cb ctx s)" r]
    have "stable (snd (nextTick h cb ctx s)) (world_of r)" by simp
    with nextTick_stable show ?thesis by (rule stable_trans)
  next
    case (Set_component v c)
    with Cons.prems Cons.IH [of "s\<lparr>vms := (vms s)(v := c)\<rparr>" r]
    have "stable (s\<lparr>vms := (vms s)(v := c)\<rparr>) (world_of r)" by simp
    then show ?thesis
      by (rule stable_from) simp_all
  next
    case (Set_then a k)
    with Cons.prems Cons.IH [of "s\<lparr>thens := (thens s)(a := k)\<rparr>" r]
    have "stable (s\<lparr>thens := (thens s)(a := k)\<rparr>) (world_of r)" by simp
    then show ?thesis
      by (rule stable_from) simp_all
  next
    case (Throw x)
    with Cons.prems show ?thesis by auto
  qed
qed

lemma flush_loop_keeps:
  assumes ext: "\<And>as s r. ext as s = Some r \<Longrightarrow> stable s (world_of r)"
  shows "flush_loop n h E ext s = Some r \<Longrightarrow> stable s (world_of r)"
proof (induction n arbitrary: s r)
  case 0
  then show ?case by (auto split: if_splits)
next
  case (Suc n)
  show ?case
  proof (cases "index s < length (queue s)")
    case False
    with Suc.prems show ?thesis by auto
  next
    case True
    define w where "w = queue s ! index s"
    define before where "before = (\<lambda>s. if has_before w
            then (let s0 = s\<lparr>events := events s @ [Before_called (watcher_id w)]\<rparr>
                  in ext (before_of E w s0) s0)
            else Some (Normal s))"
    define run where "run = (\<lambda>s1. let s3 = s1\<lparr>has := (has s1)(watcher_id w := Null),
                   events := events s1 @ [Run_called (watcher_id w)]\<rparr>
                in ext (run_of E w s3) s3)"
    define rest where "rest = (\<lambda>s4.
                      if \<not> production h \<and> has s4 (watcher_id w) = Present then
                        (let c = (case circular s4 (watcher_id w) of None \<Rightarrow> 0 | Some k \<Rightarrow> k) + 1;
                             s5 = s4\<lparr>circular := (circular s4)(watcher_id w \<mapsto> c)\<rparr>
                         in if c > MAX_UPDATE_COUNT
                            then Some (Normal (warn (loop_message w) (vm w) s5))
                            else flush_loop n h E ext (s5\<lparr>index := index s5 + 1\<rparr>))
                      else flush_loop n h E ext (s4\<lparr>index := index s4 + 1\<rparr>))"
    have eq: "flush_loop (Suc n) h E ext s = and_then (before s) (\<lambda>s1. and_then (run s1) rest)"
      using True by (simp add: w_def before_def run_def rest_def Let_def cong: if_cong)
    have kb: "stable s (world_of r1)" if "before s = Some r1" for s r1
    proof (cases "has_before w")
      case True
      let ?s0 = "s\<lparr>events := events s @ [Before_called (watcher_id w)]\<rparr>"
      from that True have "ext (before_of E w ?s0) ?s0 = Some r1"
        by (simp add: before_def Let_def)
      then have "stable ?s0 (world_of r1)" by (rule ext)
      then show ?thesis by (rule stable_from) simp_all
    next
      case False
      with that show ?thesis by (auto simp: before_def)
    qed
    have kr: "stable s (world_of r1)" if "run s = Some r1" for s r1
    proof -
      let ?s3 = "s\<lparr>has := (has s)(watcher_id w := Null),
                   events := events s @ [Run_called (watcher_id w)]\<rparr>"
      from that have "ext (run_of E w ?s3) ?s3 = Some r1"
        by (simp add: run_def Let_def)
      then have "stable ?s3 (world_of r1)" by (rule ext)
      then show ?thesis by (rule stable_from) simp_all
    qed
    have kt: "stable s (world_of r1)" if "rest s = Some r1" for s r1
    proof -
      let ?c = "(case circular s (watcher_id w) of None \<Rightarrow> 0 | Some k \<Rightarrow> k) + 1"
      let ?s5 = "s\<lparr>circular := (circular s)(watcher_id w \<mapsto> ?c)\<rparr>"
      show ?thesis
      proof (cases "\<not> production h \<and> has s (watcher_id w) = Present")
        case False
        with that have "flush_loop n h E ext (s\<lparr>index := index s + 1\<rparr>) = Some r1"
          by (simp add: rest_def)
        then have "stable (s\<lparr>index := index s + 1\<rparr>) (world_of r1)" by (rule Suc.IH)
        then show ?thesis by (rule stable_from) simp_all
      next
        case present: True
        show ?thesis
        proof (cases "?c > MAX_UPDATE_COUNT")
          case True
          with that present have "r1 = Normal (warn (loop_message w) (vm w) ?s5)"
            by (simp add: rest_def Let_def)
          then show ?thesis by (simp add: stable_def warn_def)
        next
          case False
          with that present have "flush_loop n h E ext (?s5\<lparr>index := index ?s5 + 1\<rparr>) = Some r1"
            by (simp add: rest_def Let_def)
          then have "stable (?s5\<lparr>index := index ?s5 + 1\<rparr>) (world_of r1)" by (rule Suc.IH)
          then show ?thesis by (rule stable_from) simp_all
        qed
      qed
    qed
    have "and_then (before s) (\<lambda>s1. and_then (run s1) rest) = Some r"
      using Suc.prems eq by simp
    then show ?thesis
    proof (rule and_then_keeps)
      show "stable s (world_of r1)" if "before s = Some r1" for r1
        using that by (rule kb)
      show "stable s1 (world_of r2)"
        if "and_then (run s1) rest = Some r2" for s1 r2
        using that by (rule and_then_keeps) (auto intro: kr kt)
    qed
  qed
qed

lemma callActivatedHooks_keeps:
  assumes ext: "\<And>as s r. ext as s = Some r \<Longrightarrow> stable s (world_of r)"
  shows "callActivatedHooks E ext vs s = Some r \<Longrightarrow> stable s (world_of r)"
proof (induction vs arbitrary: s r)
  case Nil
  then show ?case by auto
next
  case (Cons v vs)
  let ?g = "\<lambda>s. activateChildComponent E ext v (s\<lparr>vms := (vms s)(v := (vms s v)\<lparr>vm_inactive := True\<rparr>)\<rparr>)"
  from Cons.prems have "and_then (?g s) (callActivatedHooks E ext vs) = Some r" by simp
  then show ?case
  proof (rule and_then_keeps)
    show "stable s (world_of r1)" if "?g s = Some r1" for r1
    proof -
      let ?s1 = "s\<lparr>vms := (vms s)(v := (vms s v)\<lparr>vm_inactive := True\<rparr>),
          events := events s @ [Activate_child v]\<rparr>"
      from that have "ext (activated_of E v ?s1) ?s1 = Some r1"
        by (simp add: activateChildComponent_def Let_def)
      then have "stable ?s1 (world_of r1)" by (rule ext)
      then show ?thesis by (rule stable_from) simp_all
    qed
  qed (rule Cons.IH)
qed

lemma updated_from_keeps:
  assumes ext: "\<And>as s r. ext as s = Some r \<Longrightarrow> stable s (world_of r)"
  shows "updated_from i E ext q s = Some r \<Longrightarrow> stable s (world_of r)"
proof (induction i arbitrary: s r)
  case 0
  then show ?case by auto
next
  case (Suc i)
  let ?g = "\<lambda>s. if vm_watcher (vms s (vm (q ! i))) = Some (watcher_id (q ! i)) \<and>
               vm_isMounted (vms s (vm (q ! i))) \<and> \<not> vm_isDestroyed (vms s (vm (q ! i)))
            then callHook_updated E ext (vm (q ! i)) s else Some (Normal s)"
  from Suc.prems have "and_then (?g s) (updated_from i E ext q) = Some r"
    by (simp add: Let_def)
  then show ?case
  proof (rule and_then_keeps)
    show "stable s (world_of r1)" if "?g s = Some r1" for r1
    proof (cases "callHook_updated E ext (vm (q ! i)) s = Some r1")
      case True
      let ?s1 = "s\<lparr>events := events s @ [Hook_updated (vm (q ! i))]\<rparr>"
      from True have "ext (updated_of E (vm (q ! i)) ?s1) ?s1 = Some r1"
        by (simp add: callHook_updated_def Let_def)
      then have "stable ?s1 (world_of r1)" by (rule ext)
      then show ?thesis by (rule stable_from) simp_all
    next
      case False
      with that show ?thesis by (auto split: if_splits)
    qed
  qed (rule Suc.IH)
qed

lemma flush_finish_keeps:
  assumes ext: "\<And>as s r. ext as s = Some r \<Longrightarrow> stable s (world_of r)"
    and "flush_finish h E ext s = Some r"
  shows "stable s (world_of r)"
proof -
  let ?s1 = "resetSchedulerState h s"
  let ?f = "\<lambda>s2. and_then (callUpdatedHooks E ext (queue s) s2)
              (\<lambda>s3. Some (Normal (if devtools_on h
                                   then s3\<lparr>events := events s3 @ [Devtools_flush]\<rparr> else s3)))"
  have "and_then (callActivatedHooks E ext (activatedChildren s) ?s1) ?f = Some r"
    using assms(2) by (simp add: flush_finish_def Let_def)
  then have "stable ?s1 (world_of r)"
  proof (rule and_then_keeps)
    show "stable ?s1 (world_of r1)"
      if "callActivatedHooks E ext (activatedChildren s) ?s1 = Some r1" for r1
      by (rule callActivatedHooks_keeps [where ext = ext, OF ext that])
    show "stable s2 (world_of r2)" if "?f s2 = Some r2" for s2 r2
      using that
    proof (rule and_then_keeps)
      show "stable s2 (world_of r1)"
        if "callUpdatedHooks E ext (queue s) s2 = Some r1" for r1
        by (rule updated_from_keeps [where ext = ext, OF ext that [unfolded callUpdatedHooks_def]])
    qed (auto simp: stable_def)
  qed
  then show ?thesis
    by (rule stable_from) (simp_all add: resetSchedulerState_def Let_def)
qed

lemma flushSchedulerQueue_keeps:
  "flushSchedulerQueue n h E s = Some r \<Longrightarrow> stable s (world_of r)"
proof (induction n arbitrary: s r)
  case 0
  then show ?case by simp
next
  case (Suc n)
  let ?ext = "run_script h (flushSchedulerQueue n h E)"
  have ext: "stable s (world_of r)" if "?ext as s = Some r" for as s r
    using that by (rule run_script_keeps [rotated]) (rule Suc.IH)
  have "and_then (flush_loop n h E ?ext (flush_start s)) (flush_finish h E ?ext) = Some r"
    using Suc.prems by simp
  then have "stable (flush_start s) (world_of r)"
    by (rule and_then_keeps) (auto intro: flush_loop_keeps flush_finish_keeps ext)
  then show ?case
    by (rule stable_from) (simp_all add: flush_start_def Let_def)
qed

lemma external_code_stable:
  assumes "run_script h (flushSchedulerQueue n h E) as s = Some r"
  shows "stable s (world_of r)"
  using assms by (rule run_script_keeps [rotated]) (rule flushSchedulerQueue_keeps)

lemma external_code_keeps_promises:
  assumes "run_script h (flushSchedulerQueue n h E) as s = Some r" and "p < length (promises s)"
  shows "p < length (promises (world_of r)) \<and> promises (world_of r) ! p = promises s ! p"
proof -
  have "prefix (promises s) (promises (world_of r))"
    using external_code_stable [OF assms(1)] by (simp add: stable_def)
  then show ?thesis
    using assms(2) by (auto simp: prefix_def nth_append)
qed

lemma run_entry_user_returns:
  assumes "run_entry (call_callback n h E) (user_entry (k, c)) s = Some r"
  shows "\<exists>s'. r = Normal s' \<and> invocations (events s') = invocations (events s) @ [(k, c)]"
proof -
  let ?s1 = "s\<lparr>events := events s @ [Cb_called k c]\<rparr>"
  let ?run = "run_script h (flushSchedulerQueue n h E) (fn_of E k ?s1) ?s1"
  from assms obtain r1 where r1: "?run = Some r1"
    by (auto simp: run_entry_def user_entry_def call_callback_def Let_def split: option.splits)
  then have "stable ?s1 (world_of r1)" by (rule external_code_stable)
  then have inv: "invocations (events (world_of r1)) = invocations (events s) @ [(k, c)]"
    by (simp add: stable_def)
  show ?thesis
  proof (cases r1)
    case (Normal s')
    with assms r1 inv show ?thesis
      by (auto simp: run_entry_def user_entry_def call_callback_def Let_def world_of_def)
  next
    case (Abrupt x s')
    with assms r1 inv show ?thesis
      by (auto simp: run_entry_def user_entry_def call_callback_def Let_def handleError_def
          world_of_def invocations_def)
  qed
qed

lemma invoke_copies_user_returns:
  "invoke_copies (call_callback n h E) (map user_entry reqs) s = Some r \<Longrightarrow>
   \<exists>s'. r = Normal s' \<and> invocations (events s') = invocations (events s) @ reqs"
proof (induction reqs arbitrary: s)
  case Nil
  then show ?case by auto
next
  case (Cons q reqs)
  obtain k c where q: "q = (k, c)" by (cases q)
  from Cons.prems obtain r1 where r1: "run_entry (call_callback n h E) (user_entry (k, c)) s = Some r1"
    by (auto simp: q split: option.splits)
  then obtain s1 where s1: "r1 = Normal s1"
    "invocations (events s1) = invocations (events s) @ [(k, c)]"
    using run_entry_user_returns by blast
  from Cons.prems r1 s1(1) have "invoke_copies (call_callback n h E) (map user_entry reqs) s1 = Some r"
    by (simp add: q)
  from Cons.IH [OF this] s1(2) show ?case
    by (auto simp: q)
qed

lemma run_entry_resolve:
  assumes "p < length (promises s')" and "promises s' ! p = Pending"
  shows "run_entry call \<lparr>entry_cb = None, entry_ctx = ctx, entry_resolve = Some p\<rparr> s' =
          Some (Normal (s'\<lparr>promises := (promises s')[p := resolution (thens s') ctx]\<rparr>))"
  using assms by (simp add: run_entry_def resolve_promise_def)

section \<open>What a flush does to a promise\<close>

text \<open>
  In the loop of \<^verbatim>\<open>flushCallbacks\<close> a promise is touched by the closure that captured its
  resolve function and by no other. So when that closure is pending once, the promise is
  pending until the loop reaches the closure, is resolved with the context there, and stays as
  it is for the rest of the loop.
\<close>

lemma nextTick_thens: "thens (snd (nextTick h cb ctx s)) = thens s"
  by (simp add: nextTick_def Let_def timerFunc_def split: timer_kind.splits)

lemma resolution_fulfilled_iff: "(resolution th v = Fulfilled v) = (\<not> thenable th v)"
  by (simp add: resolution_def thenable_def split: jsval.splits then_kind.splits)

lemma resolution_not_pending: "resolution th v \<noteq> Pending"
  by (simp add: resolution_def split: jsval.splits then_kind.splits)

lemma invoke_copies_append:
  "invoke_copies call (xs @ ys) s =
     (case invoke_copies call xs s of
        None \<Rightarrow> None
      | Some (Abrupt x s') \<Rightarrow> Some (Abrupt x s')
      | Some (Normal s') \<Rightarrow> invoke_copies call ys s')"
  by (induction xs arbitrary: s) (auto split: option.splits outcome.splits)

lemma stable_promise:
  assumes "stable s s'" and "p < length (promises s)"
  shows "p < length (promises s') \<and> promises s' ! p = promises s ! p"
  using assms by (auto simp: stable_def prefix_def nth_append)

lemma call_callback_promise:
  assumes "call_callback n h E f c s = Some r" and "p < length (promises s)"
  shows "p < length (promises (world_of r)) \<and> promises (world_of r) ! p = promises s ! p"
proof (cases f)
  case FlushSchedulerQueue
  with assms(1) have "stable s (world_of r)"
    by (simp add: call_callback_def flushSchedulerQueue_keeps)
  then show ?thesis using assms(2) by (rule stable_promise)
next
  case (UserFn k)
  let ?s1 = "s\<lparr>events := events s @ [Cb_called k c]\<rparr>"
  from assms(1) UserFn have "stable ?s1 (world_of r)"
    by (simp add: call_callback_def Let_def external_code_stable)
  from stable_promise [OF this, of p] assms(2) show ?thesis by simp
qed

lemma run_entry_promise:
  assumes "entry_resolve e \<noteq> Some p" and "p < length (promises s)"
    and "run_entry (call_callback n h E) e s = Some r"
  shows "\<exists>s'. r = Normal s' \<and> p < length (promises s') \<and> promises s' ! p = promises s ! p"
proof (cases "entry_cb e")
  case (Some f)
  from assms(3) Some obtain r1 where r1: "call_callback n h E f (entry_ctx e) s = Some r1"
    by (auto simp: run_entry_def split: option.splits)
  from call_callback_promise [OF this assms(2)] assms(3) Some r1 show ?thesis
    by (cases r1) (auto simp: run_entry_def handleError_def world_of_def)
next
  case None
  with assms show ?thesis
    by (auto simp: run_entry_def resolve_promise_def split: option.splits)
qed

lemma invoke_copies_promise:
  assumes "\<forall>e\<in>set es. entry_resolve e \<noteq> Some p" and "p < length (promises s)"
    and "invoke_copies (call_callback n h E) es s = Some r"
  shows "\<exists>s'. r = Normal s' \<and> p < length (promises s') \<and> promises s' ! p = promises s ! p"
  using assms
proof (induction es arbitrary: s)
  case Nil
  then show ?case by auto
next
  case (Cons e es)
  from Cons.prems(3) obtain r1 where r1: "run_entry (call_callback n h E) e s = Some r1"
    by (auto split: option.splits)
  from run_entry_promise [OF _ Cons.prems(2) r1] Cons.prems(1)
  obtain s1 where s1: "r1 = Normal s1" "p < length (promises s1)" "promises s1 ! p = promises s ! p"
    by auto
  from Cons.prems(3) r1 s1(1) have "invoke_copies (call_callback n h E) es s1 = Some r"
    by simp
  from Cons.IH [OF _ s1(2) this] Cons.prems(1) s1(3) show ?case
    by auto
qed

lemma flushCallbacks_resolves:
  assumes cbs: "callbacks s = pre @ \<lparr>entry_cb = None, entry_ctx = ctx, entry_resolve = Some p\<rparr> # post"
    and others: "\<forall>e\<in>set (pre @ post). entry_resolve e \<noteq> Some p"
    and p: "p < length (promises s)" "promises s ! p = Pending"
    and fl: "flushCallbacks m h E s = Some r"
  shows "\<exists>t s2. invoke_copies (call_callback m h E) pre (s\<lparr>pending := False, callbacks := []\<rparr>) =
            Some (Normal t) \<and>
          promises t ! p = Pending \<and> r = Normal s2 \<and>
          promises s2 ! p = resolution (thens t) ctx"
proof -
  let ?call = "call_callback m h E"
  let ?e = "\<lparr>entry_cb = None, entry_ctx = ctx, entry_resolve = Some p\<rparr>"
  let ?s = "s\<lparr>pending := False, callbacks := []\<rparr>"
  have all: "invoke_copies ?call (pre @ ?e # post) ?s = Some r"
    using fl by (simp add: flushCallbacks_def flushCallbacks_with_def Let_def cbs)
  then obtain r1 where r1: "invoke_copies ?call pre ?s = Some r1"
    by (auto simp: invoke_copies_append split: option.splits)
  have "\<forall>e\<in>set pre. entry_resolve e \<noteq> Some p" "p < length (promises ?s)"
    using others p(1) by simp_all
  from invoke_copies_promise [OF this r1]
  obtain t where t: "r1 = Normal t" "p < length (promises t)" "promises t ! p = Pending"
    using p(2) by auto
  let ?t = "t\<lparr>promises := (promises t)[p := resolution (thens t) ctx]\<rparr>"
  have e: "run_entry ?call ?e t = Some (Normal ?t)"
    using t(2,3) by (rule run_entry_resolve)
  have rest: "invoke_copies ?call post ?t = Some r"
    using all r1 t(1) e by (simp add: invoke_copies_append)
  have "\<forall>e\<in>set post. entry_resolve e \<noteq> Some p" "p < length (promises ?t)"
    using others t(2) by simp_all
  from invoke_copies_promise [OF this rest]
  obtain s2 where "r = Normal s2" "promises s2 ! p = resolution (thens t) ctx"
    using t(2) by auto
  with r1 t show ?thesis by auto
qed

lemma script_after_nextTick:
  assumes "Promise_defined h" and "resolvers_bounded s"
    and "run_script h (flushSchedulerQueue n h E) as (snd (nextTick h None ctx s)) = Some r1"
  shows "\<exists>post. callbacks (world_of r1) =
            callbacks s @ \<lparr>entry_cb = None, entry_ctx = ctx,
                           entry_resolve = Some (length (promises s))\<rparr> # post \<and>
          (\<forall>e\<in>set (callbacks s @ post). entry_resolve e \<noteq> Some (length (promises s))) \<and>
          length (promises s) < length (promises (world_of r1)) \<and>
          promises (world_of r1) ! length (promises s) = Pending"
proof -
  let ?s1 = "snd (nextTick h None ctx s)"
  let ?p = "length (promises s)"
  have pr: "promises ?s1 = promises s @ [Pending]"
    using assms(1) by (simp add: nextTick_promises)
  have cb: "callbacks ?s1 = callbacks s @
       [\<lparr>entry_cb = None, entry_ctx = ctx, entry_resolve = Some ?p\<rparr>]"
    using assms(1) by (simp add: nextTick_callbacks)
  have st: "stable ?s1 (world_of r1)"
    using assms(3) by (rule external_code_stable)
  then obtain post where post: "callbacks (world_of r1) = callbacks ?s1 @ post"
    "\<forall>e\<in>set post. case entry_resolve e of None \<Rightarrow> True
        | Some q \<Rightarrow> length (promises ?s1) \<le> q \<and> q < length (promises (world_of r1))"
    unfolding stable_iff by blast
  have a: "\<forall>e\<in>set post. entry_resolve e \<noteq> Some ?p"
    using post(2) by (fastforce simp: pr split: option.splits)
  have b: "\<forall>e\<in>set (callbacks s). entry_resolve e \<noteq> Some ?p"
    using assms(2) by (fastforce simp: resolvers_bounded_def split: option.splits)
  have "?p < length (promises (world_of r1)) \<and> promises (world_of r1) ! ?p = promises ?s1 ! ?p"
    using st by (rule stable_promise) (simp add: pr)
  then show ?thesis
    using a b post(1) by (auto simp: cb pr)
qed

text \<open>
  Pending closures resolve promises that exist: this holds when the modules are loaded and is
  kept by external code and by \<^verbatim>\<open>flushCallbacks\<close>.
\<close>

lemma world0_bounded: "resolvers_bounded world0"
  by (simp add: resolvers_bounded_def world0_def)

lemma stable_bounded:
  assumes "stable s s'" and "resolvers_bounded s"
  shows "resolvers_bounded s'"
proof -
  from assms(1) obtain new where new: "prefix (promises s) (promises s')"
    "callbacks s' = callbacks s @ new"
    "\<forall>e\<in>set new. case entry_resolve e of None \<Rightarrow> True
        | Some q \<Rightarrow> length (promises s) \<le> q \<and> q < length (promises s')"
    unfolding stable_iff by blast
  have "length (promises s) \<le> length (promises s')"
    using new(1) by (rule prefix_length_le)
  then show ?thesis
    using assms(2) new(2,3) by (fastforce simp: resolvers_bounded_def split: option.splits)
qed

lemma external_code_bounded:
  assumes "run_script h (flushSchedulerQueue n h E) as s = Some r" and "resolvers_bounded s"
  shows "resolvers_bounded (world_of r)"
  using external_code_stable [OF assms(1)] assms(2) by (rule stable_bounded)

lemma run_entry_bounded:
  assumes "run_entry (call_callback n h E) e s = Some r" and "resolvers_bounded s"
  shows "resolvers_bounded (world_of r)"
proof (cases "entry_cb e")
  case None
  with assms show ?thesis
    by (auto simp: run_entry_def resolve_promise_def resolvers_bounded_def world_of_def
        split: option.splits)
next
  case (Some f)
  from assms(1) Some obtain r1 where r1: "call_callback n h E f (entry_ctx e) s = Some r1"
    by (auto simp: run_entry_def split: option.splits)
  have "resolvers_bounded (world_of r1)"
  proof (cases f)
    case FlushSchedulerQueue
    with r1 have "stable s (world_of r1)"
      by (simp add: call_callback_def flushSchedulerQueue_keeps)
    then show ?thesis using assms(2) by (rule stable_bounded)
  next
    case (UserFn k)
    let ?s1 = "s\<lparr>events := events s @ [Cb_called k (entry_ctx e)]\<rparr>"
    from r1 UserFn have "stable ?s1 (world_of r1)"
      by (simp add: call_callback_def Let_def external_code_stable)
    moreover have "resolvers_bounded ?s1"
      using assms(2) by (simp add: resolvers_bounded_def cong: option.case_cong)
    ultimately show ?thesis by (rule stable_bounded)
  qed
  with assms(1) Some r1 show ?thesis
    by (cases r1)
      (auto simp: run_entry_def handleError_def world_of_def resolvers_bounded_def
        cong: option.case_cong)
qed

lemma invoke_copies_bounded:
  "invoke_copies (call_callback n h E) es s = Some r \<Longrightarrow> resolvers_bounded s \<Longrightarrow>
   resolvers_bounded (world_of r)"
proof (induction es arbitrary: s)
  case Nil
  then show ?case by (auto simp: world_of_def)
next
  case (Cons e es)
  from Cons.prems(1) obtain r1 where r1: "run_entry (call_callback n h E) e s = Some r1"
    by (auto split: option.splits)
  from run_entry_bounded [OF r1 Cons.prems(2)] have b: "resolvers_bounded (world_of r1)" .
  show ?case
  proof (cases r1)
    case (Normal s1)
    with Cons.prems(1) r1 have "invoke_copies (call_callback n h E) es s1 = Some r" by simp
    from Cons.IH [OF this] b Normal show ?thesis by (simp add: world_of_def)
  next
    case (Abrupt x s1)
    with Cons.prems(1) r1 b show ?thesis by auto
  qed
qed

lemma flushCallbacks_bounded:
  assumes "flushCallbacks n h E s = Some r"
  shows "resolvers_bounded (world_of r)"
proof -
  have "resolvers_bounded (s\<lparr>pending := False, callbacks := []\<rparr>)"
    by (simp add: resolvers_bounded_def)
  with assms show ?thesis
    by (auto simp: flushCallbacks_def flushCallbacks_with_def Let_def intro: invoke_copies_bounded)
qed

section \<open>A flush whose jobs and hooks call nothing back\<close>

lemma flush_loop_quiet:
  assumes ext: "\<And>s. ext [] s = Some (Normal s)"
  shows "(\<And>w t. w \<in> set (drop (index s) (queue s)) \<Longrightarrow> run_of E w t = [] \<and> before_of E w t = []) \<Longrightarrow>
     length (queue s) - index s \<le> n \<Longrightarrow>
     flush_loop n h E ext s = Some (Normal (loop_effect (drop (index s) (queue s)) s))"
proof (induction n arbitrary: s)
  case 0
  then show ?case by (simp add: loop_effect_def)
next
  case (Suc n)
  show ?case
  proof (cases "index s < length (queue s)")
    case False
    then show ?thesis by (simp add: loop_effect_def)
  next
    case True
    let ?w = "queue s ! index s"
    let ?s3 = "s\<lparr>has := (has s)(watcher_id ?w := Null), events := events s @ job_events ?w\<rparr>"
    let ?s4 = "?s3\<lparr>index := index s + 1\<rparr>"
    have d: "drop (index s) (queue s) = ?w # drop (Suc (index s)) (queue s)"
      using True by (simp add: Cons_nth_drop_Suc)
    have q: "run_of E ?w s' = []" "before_of E ?w s' = []" for s'
      using Suc.prems(1) [of ?w s'] d by simp_all
    have step: "flush_loop (Suc n) h E ext s = flush_loop n h E ext ?s4"
      using True by (simp add: Let_def q ext and_then_def job_events_def)
    have "flush_loop n h E ext ?s4 =
        Some (Normal (loop_effect (drop (index ?s4) (queue ?s4)) ?s4))"
    proof (rule Suc.IH)
      show "run_of E w t = [] \<and> before_of E w t = []"
        if "w \<in> set (drop (index ?s4) (queue ?s4))" for w t
        using that Suc.prems(1) [of w t] d by simp
      show "length (queue ?s4) - index ?s4 \<le> n"
        using Suc.prems(2) True by simp
    qed
    moreover have "loop_effect (drop (Suc (index s)) (queue s)) ?s4 =
        loop_effect (drop (index s) (queue s)) s"
      by (simp add: loop_effect_def d)
    ultimately show ?thesis
      using step by simp
  qed
qed

lemma callActivatedHooks_quiet:
  assumes ext: "\<And>s. ext [] s = Some (Normal s)"
    and quiet: "\<And>v s. activated_of E v s = []"
  shows "callActivatedHooks E ext vs s = Some (Normal (activation_effect vs s))"
proof (induction vs arbitrary: s)
  case Nil
  then show ?case by (simp add: activation_effect_def)
next
  case (Cons v vs)
  let ?s1 = "s\<lparr>vms := (vms s)(v := (vms s v)\<lparr>vm_inactive := True\<rparr>),
               events := events s @ [Activate_child v]\<rparr>"
  have "callActivatedHooks E ext (v # vs) s = callActivatedHooks E ext vs ?s1"
    by (simp add: activateChildComponent_def Let_def quiet ext and_then_def)
  also have "\<dots> = Some (Normal (activation_effect vs ?s1))"
    by (rule Cons.IH)
  also have "activation_effect vs ?s1 = activation_effect (v # vs) s"
    by (simp add: activation_effect_def)
  finally show ?case .
qed

lemma updated_from_quiet:
  assumes ext: "\<And>s. ext [] s = Some (Normal s)"
    and quiet: "\<And>v s. updated_of E v s = []"
  shows "i \<le> length q \<Longrightarrow> updated_from i E ext q s =
     Some (Normal (s\<lparr>events := events s @
        map (\<lambda>w. Hook_updated (vm w)) (filter (is_primary (vms s)) (rev (take i q)))\<rparr>))"
proof (induction i arbitrary: s)
  case 0
  then show ?case by simp
next
  case (Suc i)
  have t: "take (Suc i) q = take i q @ [q ! i]"
    using Suc.prems by (simp add: take_Suc_conv_app_nth)
  show ?case
  proof (cases "is_primary (vms s) (q ! i)")
    case True
    let ?s1 = "s\<lparr>events := events s @ [Hook_updated (vm (q ! i))]\<rparr>"
    have "updated_from (Suc i) E ext q s = updated_from i E ext q ?s1"
      using True
      by (simp add: Let_def is_primary_def callHook_updated_def quiet ext and_then_def)
    also have "\<dots> = Some (Normal (?s1\<lparr>events := events ?s1 @
        map (\<lambda>w. Hook_updated (vm w)) (filter (is_primary (vms ?s1)) (rev (take i q)))\<rparr>))"
      by (rule Suc.IH) (use Suc.prems in simp)
    finally show ?thesis
      using True by (simp add: t)
  next
    case False
    have "updated_from (Suc i) E ext q s = updated_from i E ext q s"
      using False by (auto simp: Let_def is_primary_def and_then_def)
    also have "\<dots> = Some (Normal (s\<lparr>events := events s @
        map (\<lambda>w. Hook_updated (vm w)) (filter (is_primary (vms s)) (rev (take i q)))\<rparr>))"
      by (rule Suc.IH) (use Suc.prems in simp)
    finally show ?thesis
      using False by (simp add: t)
  qed
qed

lemma is_primary_activation:
  "is_primary (foldl (\<lambda>V v. V(v := (V v)\<lparr>vm_inactive := True\<rparr>)) V vs) w = is_primary V w"
proof (induction vs arbitrary: V)
  case Nil
  then show ?case by simp
next
  case (Cons v vs)
  have "is_primary (V(v := (V v)\<lparr>vm_inactive := True\<rparr>)) w = is_primary V w"
    by (simp add: is_primary_def)
  then show ?case by (simp only: foldl_Cons Cons.IH)
qed

lemma run_script_Nil: "run_script h flush [] s = Some (Normal s)"
  by simp

lemma flushSchedulerQueue_quiet:
  assumes jobs: "\<And>w s. run_of E w s = [] \<and> before_of E w s = []"
    and hooks: "\<And>v s. updated_of E v s = [] \<and> activated_of E v s = []"
    and n: "length (queue s) \<le> n"
  shows "flushSchedulerQueue (Suc n) h E s = Some (Normal (quiet_flush h s))"
proof -
  let ?ext = "run_script h (flushSchedulerQueue n h E)"
  let ?q = "sort_key watcher_id (queue s)"
  let ?s0 = "flush_start s"
  let ?s1 = "loop_effect ?q ?s0"
  let ?s2 = "activation_effect (activatedChildren s) (resetSchedulerState h ?s1)"
  have q0: "queue ?s0 = ?q" "index ?s0 = 0"
    by (simp_all add: flush_start_def Let_def)
  have "flush_loop n h E ?ext ?s0 = Some (Normal (loop_effect (drop (index ?s0) (queue ?s0)) ?s0))"
    by (rule flush_loop_quiet) (use jobs n in \<open>simp_all add: q0\<close>)
  then have loop: "flush_loop n h E ?ext ?s0 = Some (Normal ?s1)"
    by (simp add: q0)
  have f1: "queue ?s1 = ?q" "activatedChildren ?s1 = activatedChildren s"
    by (simp_all add: loop_effect_def flush_start_def Let_def)
  have act: "callActivatedHooks E ?ext (activatedChildren s) (resetSchedulerState h ?s1) =
      Some (Normal ?s2)"
    by (rule callActivatedHooks_quiet) (use hooks in simp_all)
  have v2: "is_primary (vms ?s2) = is_primary (vms s)"
    by (rule ext)
       (simp add: activation_effect_def is_primary_activation resetSchedulerState_def
         loop_effect_def flush_start_def Let_def)
  have "updated_from (length ?q) E ?ext ?q ?s2 =
     Some (Normal (?s2\<lparr>events := events ?s2 @
        map (\<lambda>w. Hook_updated (vm w)) (filter (is_primary (vms ?s2)) (rev (take (length ?q) ?q)))\<rparr>))"
    by (rule updated_from_quiet) (use hooks in simp_all)
  then have upd: "callUpdatedHooks E ?ext ?q ?s2 =
     Some (Normal (?s2\<lparr>events := events ?s2 @
        map (\<lambda>w. Hook_updated (vm w)) (filter (is_primary (vms s)) (rev ?q))\<rparr>))"
    by (simp add: callUpdatedHooks_def v2)
  have "flush_finish h E ?ext ?s1 = Some (Normal (quiet_flush h s))"
    by (simp add: flush_finish_def Let_def f1 act upd and_then_def quiet_flush_def)
  then show ?thesis
    by (simp add: loop and_then_def)
qed

lemma runs_append [simp]: "runs (xs @ ys) = runs xs @ runs ys"
  by (simp add: runs_def)

lemma runs_job_events: "runs (concat (map job_events ws)) = map watcher_id ws"
  by (induction ws) (simp_all add: runs_def job_events_def)

lemma runs_other [simp]:
  "runs (map Activate_child vs) = []" "runs (map (\<lambda>w. Hook_updated (vm w)) ws) = []"
  "runs [Devtools_flush] = []" "runs [] = []"
  by (simp_all add: runs_def)

lemma updated_hooks_append [simp]: "updated_hooks (xs @ ys) = updated_hooks xs @ updated_hooks ys"
  by (simp add: updated_hooks_def)

lemma updated_hooks_job_events: "updated_hooks (concat (map job_events ws)) = []"
  by (induction ws) (simp_all add: updated_hooks_def job_events_def)

lemma updated_hooks_map_Hook [simp]:
  "updated_hooks (map (\<lambda>w. Hook_updated (vm w)) ws) = map vm ws"
  by (induction ws) (simp_all add: updated_hooks_def)

lemma updated_hooks_other [simp]:
  "updated_hooks (map Activate_child vs) = []"
  "updated_hooks [Devtools_flush] = []" "updated_hooks [] = []"
  by (simp_all add: updated_hooks_def)

lemma events_quiet_flush:
  "events (quiet_flush h s) = events s @
     concat (map job_events (sort_key watcher_id (queue s))) @
     map Activate_child (activatedChildren s) @
     map (\<lambda>w. Hook_updated (vm w))
       (filter (is_primary (vms s)) (rev (sort_key watcher_id (queue s)))) @
     (if devtools_on h then [Devtools_flush] else [])"
  by (simp add: quiet_flush_def Let_def activation_effect_def resetSchedulerState_def
      loop_effect_def flush_start_def)

lemma quiet_flush_state:
  "queue (quiet_flush h s) = []" "has (quiet_flush h s) = (\<lambda>_. Absent)"
  "\<not> waiting (quiet_flush h s)" "\<not> flushing (quiet_flush h s)" "index (quiet_flush h s) = 0"
  "activatedChildren (quiet_flush h s) = []" "callbacks (quiet_flush h s) = callbacks s"
  by (simp_all add: quiet_flush_def Let_def activation_effect_def resetSchedulerState_def
      loop_effect_def flush_start_def)

section \<open>Evaluated examples\<close>

lemma sort_three: "sort_key watcher_id [job 3, job 1, job 2] = [job 1, job 2, job 3]"
  by (simp add: job_def)

lemma sort_sorted_three: "sort_key watcher_id [job 1, job 2, job 3] = [job 1, job 2, job 3]"
  by (simp add: job_def)

lemma primary_examples:
  "filter (is_primary (vms world0)) [job 3, job 2, job 1] = [job 3, job 2, job 1]"
  "filter (is_primary (vms world0)) [job 3, watch_job, job 1] = [job 3, job 1]"
  by (simp_all add: is_primary_def queued_def world0_def component0_def job_def watch_job_def)

lemma queueWatcher_first:
  "queueWatcher host_dev flush w world0 = Some (Normal (queued [w]))"
  by (simp add: queueWatcher_def Let_def world0_def host_dev_def queued_def nextTick_def
      timerFunc_def select_timer_def flush_entry_def fun_eq_iff)

lemma queueWatcher_next:
  assumes "ws \<noteq> []" and "watcher_id w \<notin> set (map watcher_id ws)"
  shows "queueWatcher host_dev flush w (queued ws) = Some (Normal (queued (ws @ [w])))"
  using assms
  by (simp add: queueWatcher_def Let_def world0_def host_dev_def queued_def fun_eq_iff)

lemma queued_reached_from:
  "pre \<noteq> [] \<Longrightarrow> distinct (map watcher_id (pre @ ws)) \<Longrightarrow>
   run_script host_dev flush (map Call_queueWatcher ws) (queued pre) = Some (Normal (queued (pre @ ws)))"
proof (induction ws arbitrary: pre)
  case Nil
  then show ?case by simp
next
  case (Cons w ws)
  have "queueWatcher host_dev flush w (queued pre) = Some (Normal (queued (pre @ [w])))"
    by (rule queueWatcher_next) (use Cons.prems in auto)
  moreover have "run_script host_dev flush (map Call_queueWatcher ws) (queued (pre @ [w])) =
      Some (Normal (queued ((pre @ [w]) @ ws)))"
    by (rule Cons.IH) (use Cons.prems in auto)
  ultimately show ?case by (simp add: and_then_def)
qed

lemma queued_reached:
  assumes "distinct (map watcher_id (w # ws))"
  shows "run_script host_dev flush (map Call_queueWatcher (w # ws)) world0 = Some (Normal (queued (w # ws)))"
proof -
  have "run_script host_dev flush (map Call_queueWatcher ws) (queued [w]) =
      Some (Normal (queued ([w] @ ws)))"
    by (rule queued_reached_from) (use assms in auto)
  then show ?thesis
    by (simp add: queueWatcher_first and_then_def)
qed

section \<open>The backward scan and the splice of queueWatcher\<close>

lemma scan_back_bounds:
  "int idx \<le> i \<Longrightarrow> int idx \<le> scan_back q idx wid i \<and> scan_back q idx wid i \<le> i"
proof (induction q idx wid i rule: scan_back.induct)
  case (1 q idx wid i)
  show ?case
  proof (cases "i > int idx \<and> watcher_id (q ! nat i) > wid")
    case True
    with "1.IH" "1.prems" show ?thesis
      by (subst (1 2) scan_back.simps) auto
  next
    case False
    with "1.prems" show ?thesis
      by (subst (1 2) scan_back.simps) auto
  qed
qed

lemma scan_back_skipped:
  "scan_back q idx wid i < j \<Longrightarrow> j \<le> i \<Longrightarrow> wid < watcher_id (q ! nat j)"
proof (induction q idx wid i rule: scan_back.induct)
  case (1 q idx wid i)
  show ?case
  proof (cases "i > int idx \<and> watcher_id (q ! nat i) > wid")
    case True
    then have e: "scan_back q idx wid i = scan_back q idx wid (i - 1)"
      by (subst scan_back.simps) simp
    show ?thesis
    proof (cases "j = i")
      case True
      with \<open>i > int idx \<and> watcher_id (q ! nat i) > wid\<close> show ?thesis by simp
    next
      case False
      with "1.IH" [OF True] "1.prems" e show ?thesis by simp
    qed
  next
    case False
    then have "scan_back q idx wid i = i"
      by (subst scan_back.simps) (simp only: False if_False)
    with "1.prems" show ?thesis by simp
  qed
qed

lemma scan_back_stop:
  "int idx < scan_back q idx wid i \<Longrightarrow> watcher_id (q ! nat (scan_back q idx wid i)) \<le> wid"
proof (induction q idx wid i rule: scan_back.induct)
  case (1 q idx wid i)
  show ?case
  proof (cases "i > int idx \<and> watcher_id (q ! nat i) > wid")
    case True
    then have e: "scan_back q idx wid i = scan_back q idx wid (i - 1)"
      by (subst scan_back.simps) simp
    with "1.IH" [OF True] "1.prems" show ?thesis by simp
  next
    case False
    then have e: "scan_back q idx wid i = i"
      by (subst scan_back.simps) (simp only: False if_False)
    with "1.prems" False show ?thesis by auto
  qed
qed

lemma splice_in_range:
  "0 \<le> k \<Longrightarrow> k \<le> int (length xs) \<Longrightarrow> splice_in xs k x = take (nat k) xs @ x # drop (nat k) xs"
  by (simp add: splice_in_def Let_def min_def)

lemma sorted_insert_between:
  fixes f :: "'a \<Rightarrow> nat"
  assumes srt: "sorted (map f (drop i q))" and ip: "i \<le> p" and pl: "p \<le> length q"
    and above: "\<And>j. p \<le> j \<Longrightarrow> j < length q \<Longrightarrow> f x < f (q ! j)"
    and below: "p = i \<or> f (q ! (p - 1)) \<le> f x"
  shows "sorted (map f (drop i (take p q @ x # drop p q)))"
proof -
  let ?A = "drop i (take p q)"
  let ?B = "drop p q"
  have "drop i (take p q @ drop p q) = ?A @ drop (i - length (take p q)) ?B"
    by (rule drop_append)
  moreover have "i - length (take p q) = 0"
    using ip pl by simp
  ultimately have split: "drop i q = ?A @ ?B"
    by simp
  have s: "sorted (map f ?A)" "sorted (map f ?B)"
    using srt by (simp_all add: split sorted_append)
  have B: "f x < f z" if "z \<in> set ?B" for z
  proof -
    from that obtain j where "j < length ?B" "z = ?B ! j" by (metis in_set_conv_nth)
    then show ?thesis using above [of "p + j"] pl by simp
  qed
  have A: "f z \<le> f x" if "z \<in> set ?A" for z
  proof -
    from that obtain j where j: "j < length ?A" "z = ?A ! j" by (metis in_set_conv_nth)
    then have pi: "i < p" by simp
    with below have last: "f (q ! (p - 1)) \<le> f x" by simp
    have jl: "j \<le> p - 1 - i" "p - 1 - i < length (map f (drop i q))"
      using j(1) pi pl by simp_all
    have "map f (drop i q) ! j \<le> map f (drop i q) ! (p - 1 - i)"
      using srt jl by (rule sorted_nth_mono)
    moreover have "map f (drop i q) ! j = f z"
      using j pi pl by simp
    moreover have "map f (drop i q) ! (p - 1 - i) = f (q ! (p - 1))"
      using pi pl by simp
    ultimately show ?thesis using last by simp
  qed
  have "drop i (take p q @ x # drop p q) = ?A @ x # ?B"
    using ip pl by simp
  moreover have "f a \<le> f b" if "a \<in> set ?A" "b \<in> set ?B" for a b
    using A [OF that(1)] B [OF that(2)] by simp
  then have "sorted (map f (?A @ x # ?B))"
    using s A B by (auto simp: sorted_append less_imp_le)
  ultimately show ?thesis by simp
qed

lemma queueWatcher_mid_flush:
  "queueWatcher host_dev (\<lambda>s. None) (job 4) mid_flush =
     Some (Normal (mid_flush\<lparr>has := (has mid_flush)(watcher_id (job 4) := Present),
                              queue := [job 1, job 2, job 4, job 5, job 8]\<rparr>))"
  by (simp add: queueWatcher_def mid_flush_def world0_def job_def scan_back.simps splice_in_def
      Let_def)

lemma requeue_run:
  "\<exists>s1 s2. run_script host_dev (\<lambda>s. None)
        [Call_queueWatcher (job 8), Call_queueWatcher (job 1), Call_queueWatcher (job 5),
         Call_queueWatcher (job 2)] world0 = Some (Normal s1) \<and>
      flushCallbacks 9 host_dev requeue_env s1 = Some (Normal s2) \<and>
      runs (events s2) = [1, 2, 4, 5, 8]"
  by (simp add: and_then_def host_dev_def world0_def job_def requeue_env_def quiet_env_def
      component0_def queueWatcher_def nextTick_def timerFunc_def select_timer_def
      flushCallbacks_def flushCallbacks_with_def run_entry_def call_callback_def flush_start_def
      flush_finish_def resetSchedulerState_def callUpdatedHooks_def callHook_updated_def
      scan_back.simps splice_in_def Let_def numeral_eq_Suc runs_def)

section \<open>The state after resetSchedulerState\<close>

lemma resetSchedulerState_fields:
  "queue (resetSchedulerState h s) = []" "activatedChildren (resetSchedulerState h s) = []"
  "has (resetSchedulerState h s) = (\<lambda>_. Absent)" "index (resetSchedulerState h s) = 0"
  "\<not> waiting (resetSchedulerState h s)" "\<not> flushing (resetSchedulerState h s)"
  "circular (resetSchedulerState h s) = (if production h then circular s else Map.empty)"
  "callbacks (resetSchedulerState h s) = callbacks s" "events (resetSchedulerState h s) = events s"
  "vms (resetSchedulerState h s) = vms s" "pending (resetSchedulerState h s) = pending s"
  by (simp_all add: resetSchedulerState_def Let_def)

lemma queueWatcher_fresh:
  assumes "production h \<or> config_async h" and "has s (watcher_id w) \<noteq> Present"
    and "\<not> waiting s" and "\<not> flushing s"
  shows "\<exists>t. queueWatcher h flush w s = Some (Normal t) \<and> queue t = queue s @ [w] \<and>
     has t = (has s)(watcher_id w := Present) \<and> waiting t \<and> \<not> flushing t \<and> index t = index s \<and>
     callbacks t = callbacks s @ [flush_entry] \<and> events t = events s \<and> circular t = circular s"
  using assms
  by (auto simp: queueWatcher_def Let_def nextTick_frame nextTick_callbacks flush_entry_def)

section \<open>A job that registers itself again on every run\<close>

lemma quiet_steps:
  assumes ext: "\<And>s. ext [] s = Some (Normal s)"
  shows "index s + k \<le> length (queue s) \<Longrightarrow>
     (\<And>w t. w \<in> set (take k (drop (index s) (queue s))) \<Longrightarrow> run_of E w t = [] \<and> before_of E w t = []) \<Longrightarrow>
     flush_loop (k + m) h E ext s =
       flush_loop m h E ext (loop_effect (take k (drop (index s) (queue s))) s)"
proof (induction k arbitrary: s)
  case 0
  have "loop_effect [] s = s" by (simp add: loop_effect_def)
  then show ?case by simp
next
  case (Suc k)
  let ?w = "queue s ! index s"
  let ?s4 = "s\<lparr>has := (has s)(watcher_id ?w := Null), events := events s @ job_events ?w,
                index := index s + 1\<rparr>"
  have lt: "index s < length (queue s)"
    using Suc.prems(1) by simp
  have d: "take (Suc k) (drop (index s) (queue s)) = ?w # take k (drop (Suc (index s)) (queue s))"
    using lt by (simp add: Cons_nth_drop_Suc [symmetric])
  have q: "run_of E ?w s' = []" "before_of E ?w s' = []" for s'
    using Suc.prems(2) [of ?w s'] d by simp_all
  have "flush_loop (Suc (k + m)) h E ext s = flush_loop (k + m) h E ext ?s4"
    using lt by (simp add: Let_def q ext and_then_def job_events_def)
  also have "\<dots> = flush_loop m h E ext (loop_effect (take k (drop (index ?s4) (queue ?s4))) ?s4)"
  proof (rule Suc.IH)
    show "index ?s4 + k \<le> length (queue ?s4)"
      using Suc.prems(1) by simp
    show "run_of E w t = [] \<and> before_of E w t = []"
      if "w \<in> set (take k (drop (index ?s4) (queue ?s4)))" for w t
      using that Suc.prems(2) [of w t] d by simp
  qed
  also have "loop_effect (take k (drop (index ?s4) (queue ?s4))) ?s4 =
      loop_effect (take (Suc k) (drop (index s) (queue s))) s"
    unfolding d by (simp add: loop_effect_def)
  finally show ?case by simp
qed

lemma scan_back_self:
  assumes "\<forall>x\<in>set post. wid < watcher_id x"
  shows "scan_back (pre @ replicate (Suc j) w @ post) (length pre + j) wid
           (int (length (pre @ replicate (Suc j) w @ post)) - 1) = int (length pre + j)"
proof -
  let ?q = "pre @ replicate (Suc j) w @ post"
  let ?k = "length pre + j"
  let ?r = "scan_back ?q ?k wid (int (length ?q) - 1)"
  have start: "int ?k \<le> int (length ?q) - 1" by simp
  have b: "int ?k \<le> ?r" "?r \<le> int (length ?q) - 1"
    using scan_back_bounds [OF start] by simp_all
  have "\<not> int ?k < ?r"
  proof
    assume gt: "int ?k < ?r"
    then have le: "watcher_id (?q ! nat ?r) \<le> wid" by (rule scan_back_stop)
    have "nat ?r - Suc ?k < length post" using gt b by simp
    then have "post ! (nat ?r - Suc ?k) \<in> set post" by (rule nth_mem)
    moreover have "?q ! nat ?r = post ! (nat ?r - Suc ?k)"
      using gt by (simp add: nth_append del: replicate_Suc)
    ultimately have "wid < watcher_id (?q ! nat ?r)" using assms(1) by simp
    with le show False by simp
  qed
  with b(1) show ?thesis by simp
qed

lemma queueWatcher_self:
  assumes "flushing t" and "waiting t" and "has t (watcher_id w) \<noteq> Present"
    and "index t = length pre + j" and "queue t = pre @ replicate (Suc j) w @ post"
    and "\<forall>x\<in>set post. watcher_id w < watcher_id x"
  shows "queueWatcher h flush w t =
     Some (Normal (t\<lparr>has := (has t)(watcher_id w := Present),
                      queue := pre @ replicate (Suc (Suc j)) w @ post\<rparr>))"
proof -
  let ?k = "length pre + j"
  have sc: "scan_back (queue t) (index t) (watcher_id w) (int (length (queue t)) - 1) = int ?k"
    unfolding assms(4,5) using assms(6) by (rule scan_back_self)
  have "splice_in (queue t) (int ?k + 1) w =
      take (nat (int ?k + 1)) (queue t) @ w # drop (nat (int ?k + 1)) (queue t)"
    by (rule splice_in_range) (simp_all add: assms(5))
  also have "\<dots> = (pre @ replicate (Suc j) w) @ w # post"
  proof -
    have n: "nat (int ?k + 1) = length (pre @ replicate (Suc j) w)" by simp
    have q: "queue t = (pre @ replicate (Suc j) w) @ post" by (simp add: assms(5))
    have g: "take (length xs) (xs @ ys) @ w # drop (length xs) (xs @ ys) = xs @ w # ys"
      for xs ys :: "watcher list" by simp
    show ?thesis unfolding q n by (rule g)
  qed
  also have "\<dots> = pre @ replicate (Suc (Suc j)) w @ post"
    by (simp add: replicate_app_Cons_same)
  finally have "splice_in (queue t) (int ?k + 1) w = pre @ replicate (Suc (Suc j)) w @ post" .
  then have sp: "splice_in (queue t) (int (length pre) + int j + 1) w =
      pre @ replicate (Suc (Suc j)) w @ post"
    by simp
  from sc have sc': "scan_back (queue t) (index t) (watcher_id w) (int (length (queue t)) - 1) =
      int (length pre) + int j"
    by simp
  show ?thesis
    using assms(1-3) by (simp add: queueWatcher_def Let_def sc' sp)
qed

lemma self_loop_step:
  assumes np: "\<not> production h"
    and run: "\<And>t. run_of E w t = [Call_queueWatcher w]"
    and bef: "\<And>t. before_of E w t = []"
    and post: "\<forall>x\<in>set post. watcher_id w < watcher_id x"
    and inv: "flushing t" "waiting t" "index t = length pre + j"
      "queue t = pre @ replicate (Suc j) w @ post" "circular_count t (watcher_id w) = j"
  shows "flush_loop (Suc m) h E (run_script h flush) t =
     (if MAX_UPDATE_COUNT < Suc j
      then Some (Normal (warn (loop_message w) (vm w) (after_self_run pre j w post t)))
      else flush_loop m h E (run_script h flush)
             ((after_self_run pre j w post t)\<lparr>index := Suc (index t)\<rparr>))"
proof -
  have lt: "index t < length (queue t)" and nth: "queue t ! index t = w"
    by (simp_all add: inv(3,4) nth_append del: replicate_Suc)
  have qs: "queueWatcher h flush w (t\<lparr>has := (has t)(watcher_id w := Null), events := evs\<rparr>) =
     Some (Normal (t\<lparr>has := (has t)(watcher_id w := Present), events := evs,
                      queue := pre @ replicate (Suc (Suc j)) w @ post\<rparr>))" for evs
  proof -
    let ?s3 = "t\<lparr>has := (has t)(watcher_id w := Null), events := evs\<rparr>"
    have "queueWatcher h flush w ?s3 =
       Some (Normal (?s3\<lparr>has := (has ?s3)(watcher_id w := Present),
                      queue := pre @ replicate (Suc (Suc j)) w @ post\<rparr>))"
      by (rule queueWatcher_self) (simp_all add: inv post)
    then show ?thesis by simp
  qed
  have cc: "(case circular t (watcher_id w) of None \<Rightarrow> 0 | Some k \<Rightarrow> k) = j"
    using inv(5) by (simp add: circular_count_def)
  show ?thesis
    using lt np
    by (simp add: nth Let_def run bef and_then_def qs cc job_events_def after_self_run_def
        del: replicate_Suc)
qed

lemma self_loop:
  assumes np: "\<not> production h"
    and run: "\<And>t. run_of E w t = [Call_queueWatcher w]"
    and bef: "\<And>t. before_of E w t = []"
    and post: "\<forall>x\<in>set post. watcher_id w < watcher_id x"
  shows "flushing t \<Longrightarrow> waiting t \<Longrightarrow> index t = length pre + j \<Longrightarrow>
     queue t = pre @ replicate (Suc j) w @ post \<Longrightarrow>
     circular_count t (watcher_id w) = j \<Longrightarrow> j + d = MAX_UPDATE_COUNT \<Longrightarrow> d < m \<Longrightarrow>
     \<exists>s1. flush_loop m h E (run_script h flush) t = Some (Normal s1) \<and>
        index s1 = length pre + MAX_UPDATE_COUNT \<and>
        queue s1 = pre @ replicate (MAX_UPDATE_COUNT + 2) w @ post \<and>
        circular s1 (watcher_id w) = Some (MAX_UPDATE_COUNT + 1) \<and>
        events s1 = events t @ concat (replicate (Suc d) (job_events w)) @
          [Warned (loop_message w) (vm w)]"
proof (induction d arbitrary: t m j)
  case 0
  then obtain m' where m: "m = Suc m'" by (cases m) auto
  have "flush_loop (Suc m') h E (run_script h flush) t =
      Some (Normal (warn (loop_message w) (vm w) (after_self_run pre j w post t)))"
    using self_loop_step [OF np run bef post "0.prems"(1-5), of m' flush] "0.prems"(6)
    by (simp del: flush_loop.simps)
  then show ?case
    using "0.prems"(3,6) by (simp add: m warn_def after_self_run_def del: flush_loop.simps)
next
  case (Suc d)
  then obtain m' where m: "m = Suc m'" by (cases m) auto
  let ?t' = "(after_self_run pre j w post t)\<lparr>index := Suc (index t)\<rparr>"
  have step: "flush_loop (Suc m') h E (run_script h flush) t =
      flush_loop m' h E (run_script h flush) ?t'"
    using self_loop_step [OF np run bef post Suc.prems(1-5), of m' flush] Suc.prems(6)
    by (simp del: flush_loop.simps)
  have "\<exists>s1. flush_loop m' h E (run_script h flush) ?t' = Some (Normal s1) \<and>
        index s1 = length pre + MAX_UPDATE_COUNT \<and>
        queue s1 = pre @ replicate (MAX_UPDATE_COUNT + 2) w @ post \<and>
        circular s1 (watcher_id w) = Some (MAX_UPDATE_COUNT + 1) \<and>
        events s1 = events ?t' @ concat (replicate (Suc d) (job_events w)) @
          [Warned (loop_message w) (vm w)]"
  proof (rule Suc.IH)
    show "flushing ?t'" "waiting ?t'"
      using Suc.prems(1,2) by (simp_all add: after_self_run_def)
    show "index ?t' = length pre + Suc j"
      using Suc.prems(3) by simp
    show "queue ?t' = pre @ replicate (Suc (Suc j)) w @ post"
      by (simp add: after_self_run_def)
    show "circular_count ?t' (watcher_id w) = Suc j"
      by (simp add: after_self_run_def circular_count_def)
    show "Suc j + d = MAX_UPDATE_COUNT"
      using Suc.prems(6) by simp
    show "d < m'"
      using Suc.prems(7) m by simp
  qed
  then show ?case
    unfolding m step by (auto simp: after_self_run_def simp del: flush_loop.simps)
qed

lemma warnings_append [simp]: "warnings (xs @ ys) = warnings xs @ warnings ys"
  by (simp add: warnings_def)

lemma warnings_other [simp]:
  "warnings (map Activate_child vs) = []" "warnings (map (\<lambda>w. Hook_updated (vm w)) ws) = []"
  "warnings [Devtools_flush] = []" "warnings [] = []"
  "warnings [Warned m v] = [(m, v)]"
  by (simp_all add: warnings_def)

lemma warnings_job_events: "warnings (concat (replicate k (job_events w))) = []"
  by (induction k) (simp_all add: warnings_def job_events_def)

lemma warnings_map_job_events: "warnings (concat (map job_events ws)) = []"
  by (induction ws) (simp_all add: warnings_def job_events_def)

lemma runs_replicate_job_events:
  "runs (concat (replicate k (job_events w))) = replicate k (watcher_id w)"
  by (induction k) (simp_all add: runs_def job_events_def)

lemma runs_Warned [simp]: "runs [Warned m v] = []"
  by (simp add: runs_def)

lemma flush_finish_quiet:
  assumes ext: "\<And>s. ext [] s = Some (Normal s)"
    and hooks: "\<And>v t. updated_of E v t = [] \<and> activated_of E v t = []"
  shows "\<exists>s'. flush_finish h E ext s1 = Some (Normal s') \<and>
     runs (events s') = runs (events s1) \<and> warnings (events s') = warnings (events s1) \<and>
     queue s' = [] \<and> has s' = (\<lambda>_. Absent) \<and> \<not> waiting s' \<and> \<not> flushing s' \<and> index s' = 0 \<and>
     callbacks s' = callbacks s1"
proof -
  let ?s2 = "activation_effect (activatedChildren s1) (resetSchedulerState h s1)"
  let ?s3 = "?s2\<lparr>events := events ?s2 @
        map (\<lambda>w. Hook_updated (vm w))
          (filter (is_primary (vms ?s2)) (rev (take (length (queue s1)) (queue s1))))\<rparr>"
  let ?s' = "if devtools_on h then ?s3\<lparr>events := events ?s3 @ [Devtools_flush]\<rparr> else ?s3"
  have act: "callActivatedHooks E ext (activatedChildren s1) (resetSchedulerState h s1) =
      Some (Normal ?s2)"
    by (rule callActivatedHooks_quiet) (use ext hooks in simp_all)
  have "updated_from (length (queue s1)) E ext (queue s1) ?s2 = Some (Normal ?s3)"
    by (rule updated_from_quiet) (use ext hooks in simp_all)
  then have upd: "callUpdatedHooks E ext (queue s1) ?s2 = Some (Normal ?s3)"
    by (simp add: callUpdatedHooks_def)
  have "flush_finish h E ext s1 = Some (Normal ?s')"
    by (simp only: flush_finish_def Let_def act upd and_then_def option.case outcome.case)
  moreover have "runs (events ?s') = runs (events s1)" "warnings (events ?s') = warnings (events s1)"
    "queue ?s' = []" "has ?s' = (\<lambda>_. Absent)" "\<not> waiting ?s'" "\<not> flushing ?s'" "index ?s' = 0"
    "callbacks ?s' = callbacks s1"
    by (simp_all add: activation_effect_def resetSchedulerState_fields)
  ultimately show ?thesis by blast
qed

lemma self_registering_flush:
  assumes "\<not> production h"
    and "\<And>t. run_of E w t = [Call_queueWatcher w]" and "\<And>t. before_of E w t = []"
    and "\<forall>x\<in>set pre. \<forall>t. run_of E x t = [] \<and> before_of E x t = []"
    and "\<And>v t. updated_of E v t = [] \<and> activated_of E v t = []"
    and "sort_key watcher_id (queue s) = pre @ w # post"
    and "\<forall>x\<in>set post. watcher_id w < watcher_id x"
    and "waiting s" and "circular s (watcher_id w) = None"
    and "length pre + MAX_UPDATE_COUNT < n"
  shows "\<exists>s1 s'.
     flush_loop n h E (run_script h (flushSchedulerQueue n h E)) (flush_start s) = Some (Normal s1) \<and>
     index s1 = length pre + MAX_UPDATE_COUNT \<and>
     queue s1 = pre @ replicate (MAX_UPDATE_COUNT + 2) w @ post \<and>
     circular s1 (watcher_id w) = Some (MAX_UPDATE_COUNT + 1) \<and>
     flushSchedulerQueue (Suc n) h E s = Some (Normal s') \<and>
     runs (events s') = runs (events s) @ map watcher_id pre @
       replicate (MAX_UPDATE_COUNT + 1) (watcher_id w) \<and>
     warnings (events s') = warnings (events s) @ [(loop_message w, vm w)] \<and>
     loop_message w = ''You may have an infinite update loop '' @
       (if user w then ''in watcher with expression '' @ [CHR 0x22] @ expression w @ [CHR 0x22]
        else ''in a component render function.'') \<and>
     queue s' = [] \<and> has s' = (\<lambda>_. Absent) \<and> \<not> waiting s' \<and> \<not> flushing s'"
proof -
  let ?ext = "run_script h (flushSchedulerQueue n h E)"
  let ?a = "flush_start s"
  let ?t = "loop_effect pre ?a"
  define m where "m = n - length pre"
  have n: "n = length pre + m" and m: "MAX_UPDATE_COUNT < m"
    using assms(10) by (simp_all add: m_def)
  have t0: "queue ?a = pre @ w # post" "index ?a = 0" "flushing ?a" "waiting ?a"
    "circular ?a = circular s" "events ?a = events s"
    using assms(6,8) by (simp_all add: flush_start_def Let_def)
  have tk: "take (length pre) (drop (index ?a) (queue ?a)) = pre"
    by (simp add: t0)
  have "flush_loop (length pre + m) h E ?ext ?a =
      flush_loop m h E ?ext (loop_effect (take (length pre) (drop (index ?a) (queue ?a))) ?a)"
  proof (rule quiet_steps)
    show "?ext [] s0 = Some (Normal s0)" for s0 by simp
    show "index ?a + length pre \<le> length (queue ?a)" by (simp add: t0)
    show "run_of E x t = [] \<and> before_of E x t = []"
      if "x \<in> set (take (length pre) (drop (index ?a) (queue ?a)))" for x t
      using that assms(4) unfolding tk by blast
  qed
  then have pre: "flush_loop n h E ?ext ?a = flush_loop m h E ?ext ?t"
    unfolding tk n .
  have t: "flushing ?t" "waiting ?t" "index ?t = length pre + 0"
    "queue ?t = pre @ replicate (Suc 0) w @ post"
    "circular_count ?t (watcher_id w) = 0" "0 + MAX_UPDATE_COUNT = MAX_UPDATE_COUNT"
    "events ?t = events s @ concat (map job_events pre)"
    using assms(9) by (simp_all add: loop_effect_def t0 circular_count_def)
  obtain s1 where s1: "flush_loop m h E ?ext ?t = Some (Normal s1)"
    "index s1 = length pre + MAX_UPDATE_COUNT"
    "queue s1 = pre @ replicate (MAX_UPDATE_COUNT + 2) w @ post"
    "circular s1 (watcher_id w) = Some (MAX_UPDATE_COUNT + 1)"
    "events s1 = events ?t @ concat (replicate (Suc MAX_UPDATE_COUNT) (job_events w)) @
          [Warned (loop_message w) (vm w)]"
    using self_loop [OF assms(1,2,3,7) t(1-6) m, of "flushSchedulerQueue n h E"] by blast
  obtain s' where s': "flush_finish h E ?ext s1 = Some (Normal s')"
    "runs (events s') = runs (events s1)" "warnings (events s') = warnings (events s1)"
    "queue s' = []" "has s' = (\<lambda>_. Absent)" "\<not> waiting s'" "\<not> flushing s'"
    using flush_finish_quiet [of ?ext E h s1] assms(5) by auto
  have loop: "flush_loop n h E ?ext ?a = Some (Normal s1)"
    using pre s1(1) by simp
  have fl: "flushSchedulerQueue (Suc n) h E s = Some (Normal s')"
    by (simp only: flushSchedulerQueue.simps loop s'(1) and_then_def option.case outcome.case)
  have r: "runs (events s') = runs (events s) @ map watcher_id pre @
       replicate (MAX_UPDATE_COUNT + 1) (watcher_id w)"
    unfolding s'(2) s1(5) t(7)
    by (simp only: runs_append runs_replicate_job_events runs_job_events runs_Warned) simp
  have w: "warnings (events s') = warnings (events s) @ [(loop_message w, vm w)]"
    unfolding s'(3) s1(5) t(7)
    by (simp only: warnings_append warnings_job_events warnings_map_job_events warnings_other) simp
  show ?thesis
    using loop s1(2-4) fl r w s'(4-7) by (simp add: loop_message_def)
qed

lemma looping_sorts:
  "sort_key watcher_id (queue (queued [job 9, watch_job, job 3, job 7])) = [job 3] @ watch_job # [job 7, job 9]"
  "sort_key watcher_id (queue (queued [job 2, job 1])) = [] @ job 1 # [job 2]"
  by (simp_all add: queued_def job_def watch_job_def)

section \<open>C1: a job registered during a flush is spliced into the sorted remainder\<close>

text \<open>
  C1. During a flush, at cursor \<open>index s\<close>, \<^verbatim>\<open>queueWatcher\<close> on a job \<open>w\<close> whose id is not marked
  inserts \<open>w\<close> at a position \<open>p\<close> after the cursor: every job from \<open>p\<close> on has a greater id
  than \<open>w\<close>, and the job just before \<open>p\<close> is the first one, scanning backward from the end,
  whose id is not greater (or the cursor itself, where the scan stops at the latest). Nothing
  but the queue and the mark of the id changes. If the jobs after the cursor were sorted
  ascending by id they still are, \<open>w\<close> is among them, and when the loop goes on from the next
  index with jobs that queue nothing further it runs exactly these jobs in that order, \<open>w\<close>
  included: the job runs in the same flush. With the queue 1, 2, 5, 8 and the cursor at job 2,
  registering job 4 gives 1, 2, 4, 5, 8, and the whole flush runs 1, 2, 4, 5, 8.
\<close>

theorem queueWatcher_while_flushing:
  assumes "flushing s" and "waiting s" and "has s (watcher_id w) \<noteq> Present"
    and "index s < length (queue s)"
  shows "\<exists>p. index s < p \<and> p \<le> length (queue s) \<and>
     queueWatcher h flush w s =
       Some (Normal (s\<lparr>has := (has s)(watcher_id w := Present),
                        queue := take p (queue s) @ w # drop p (queue s)\<rparr>)) \<and>
     (\<forall>j. p \<le> j \<and> j < length (queue s) \<longrightarrow> watcher_id w < watcher_id (queue s ! j)) \<and>
     (p = Suc (index s) \<or> watcher_id (queue s ! (p - 1)) \<le> watcher_id w) \<and>
     (sorted (map watcher_id (drop (Suc (index s)) (queue s))) \<longrightarrow>
        sorted (map watcher_id (drop (Suc (index s)) (take p (queue s) @ w # drop p (queue s))))) \<and>
     w \<in> set (drop (Suc (index s)) (take p (queue s) @ w # drop p (queue s))) \<and>
     ((\<forall>x t. x \<in> set (drop (Suc (index s)) (take p (queue s) @ w # drop p (queue s))) \<longrightarrow>
          run_of E x t = [] \<and> before_of E x t = []) \<and> length (queue s) - index s \<le> n \<longrightarrow>
        (\<exists>s'. flush_loop n h E (run_script h flush')
               (s\<lparr>has := (has s)(watcher_id w := Present),
                  queue := take p (queue s) @ w # drop p (queue s),
                  index := Suc (index s)\<rparr>) = Some (Normal s') \<and>
           runs (events s') = runs (events s) @
             map watcher_id (drop (Suc (index s)) (take p (queue s) @ w # drop p (queue s)))))"
proof -
  let ?q = "queue s"
  let ?i = "index s"
  let ?r = "scan_back ?q ?i (watcher_id w) (int (length ?q) - 1)"
  define p where "p = nat (?r + 1)"
  let ?q' = "take p ?q @ w # drop p ?q"
  let ?s' = "s\<lparr>has := (has s)(watcher_id w := Present), queue := ?q'\<rparr>"
  have start: "int ?i \<le> int (length ?q) - 1"
    using assms(4) by simp
  have b: "int ?i \<le> ?r" "?r \<le> int (length ?q) - 1"
    using scan_back_bounds [OF start] by simp_all
  have p1: "?i < p" "p \<le> length ?q"
    using b by (simp_all add: p_def)
  have rp: "?r = int p - 1"
    using b by (simp add: p_def)
  have "splice_in ?q (?r + 1) w = ?q'"
    using b by (simp add: splice_in_range p_def)
  then have qw: "queueWatcher h flush w s = Some (Normal ?s')"
    using assms(1-3) by (simp add: queueWatcher_def Let_def)
  have above: "watcher_id w < watcher_id (?q ! j)" if "p \<le> j" "j < length ?q" for j
    using scan_back_skipped [of ?q ?i "watcher_id w" "int (length ?q) - 1" "int j"] that
    by (simp add: rp)
  have below: "p = Suc ?i \<or> watcher_id (?q ! (p - 1)) \<le> watcher_id w"
  proof (cases "int ?i < ?r")
    case True
    from scan_back_stop [OF True] have "watcher_id (?q ! nat (int p - 1)) \<le> watcher_id w"
      by (simp only: rp)
    moreover have "nat (int p - 1) = p - 1" by simp
    ultimately show ?thesis by simp
  next
    case False
    with b(1) have "?r = int ?i" by simp
    then have "p = Suc ?i" unfolding p_def by linarith
    then show ?thesis by simp
  qed
  have srt: "sorted (map watcher_id (drop (Suc ?i) ?q'))"
    if "sorted (map watcher_id (drop (Suc ?i) ?q))"
    using that
  proof (rule sorted_insert_between)
    show "Suc ?i \<le> p" using p1 by simp
    show "p \<le> length ?q" by (rule p1)
    show "watcher_id w < watcher_id (?q ! j)" if "p \<le> j" "j < length ?q" for j
      using that by (rule above)
    show "p = Suc ?i \<or> watcher_id (?q ! (p - 1)) \<le> watcher_id w" by (rule below)
  qed
  have d: "drop (Suc ?i) ?q' = drop (Suc ?i) (take p ?q) @ w # drop p ?q"
    using p1 by simp
  have mem: "w \<in> set (drop (Suc ?i) ?q')"
    unfolding d by simp
  have later: "\<exists>s''. flush_loop n h E (run_script h flush') (?s'\<lparr>index := Suc ?i\<rparr>) = Some (Normal s'') \<and>
           runs (events s'') = runs (events s) @ map watcher_id (drop (Suc ?i) ?q')"
    if quiet: "\<forall>x t. x \<in> set (drop (Suc ?i) ?q') \<longrightarrow> run_of E x t = [] \<and> before_of E x t = []"
      and n: "length ?q - ?i \<le> n"
  proof -
    let ?t = "?s'\<lparr>index := Suc ?i\<rparr>"
    have t: "index ?t = Suc ?i" "queue ?t = ?q'" by simp_all
    have "flush_loop n h E (run_script h flush') ?t =
        Some (Normal (loop_effect (drop (index ?t) (queue ?t)) ?t))"
    proof (rule flush_loop_quiet)
      show "run_script h flush' [] s0 = Some (Normal s0)" for s0 by simp
      show "run_of E x t = [] \<and> before_of E x t = []" if "x \<in> set (drop (index ?t) (queue ?t))" for x t
        using that quiet unfolding t by blast
      show "length (queue ?t) - index ?t \<le> n"
        using n p1 unfolding t by simp
    qed
    moreover have "runs (events (loop_effect (drop (index ?t) (queue ?t)) ?t)) =
        runs (events s) @ map watcher_id (drop (Suc ?i) ?q')"
      unfolding t by (simp add: loop_effect_def runs_job_events del: drop_append)
    ultimately show ?thesis by simp
  qed
  show ?thesis
    using p1 qw above below srt mem later by (intro exI [of _ p]) simp
qed

theorem queueWatcher_while_flushing_witness:
  "flushing mid_flush \<and> waiting mid_flush \<and> has mid_flush (watcher_id (job 4)) = Absent \<and>
   index mid_flush < length (queue mid_flush) \<and>
   sorted (map watcher_id (drop (Suc (index mid_flush)) (queue mid_flush))) \<and>
   (\<exists>p. index mid_flush < p \<and>
      queueWatcher host_dev (\<lambda>s. None) (job 4) mid_flush =
        Some (Normal (mid_flush\<lparr>has := (has mid_flush)(watcher_id (job 4) := Present),
           queue := take p (queue mid_flush) @ job 4 # drop p (queue mid_flush)\<rparr>)) \<and>
      take p (queue mid_flush) @ job 4 # drop p (queue mid_flush) =
        [job 1, job 2, job 4, job 5, job 8] \<and>
      sorted (map watcher_id (drop (Suc (index mid_flush))
        (take p (queue mid_flush) @ job 4 # drop p (queue mid_flush))))) \<and>
   (\<exists>s1 s2. run_script host_dev (\<lambda>s. None)
        [Call_queueWatcher (job 8), Call_queueWatcher (job 1), Call_queueWatcher (job 5),
         Call_queueWatcher (job 2)] world0 = Some (Normal s1) \<and>
      flushCallbacks 9 host_dev requeue_env s1 = Some (Normal s2) \<and>
      runs (events s2) = [1, 2, 4, 5, 8])"
proof -
  have h: "flushing mid_flush" "waiting mid_flush" "has mid_flush (watcher_id (job 4)) \<noteq> Present"
    "index mid_flush < length (queue mid_flush)"
    by (simp_all add: mid_flush_def job_def)
  have a: "has mid_flush (watcher_id (job 4)) = Absent"
    "sorted (map watcher_id (drop (Suc (index mid_flush)) (queue mid_flush)))"
    by (simp_all add: mid_flush_def job_def)
  from queueWatcher_while_flushing [OF h, of host_dev "\<lambda>s. None" quiet_env 0 "\<lambda>s. None"]
  obtain p where p: "index mid_flush < p"
    "queueWatcher host_dev (\<lambda>s. None) (job 4) mid_flush =
        Some (Normal (mid_flush\<lparr>has := (has mid_flush)(watcher_id (job 4) := Present),
           queue := take p (queue mid_flush) @ job 4 # drop p (queue mid_flush)\<rparr>))"
    "sorted (map watcher_id (drop (Suc (index mid_flush)) (queue mid_flush))) \<longrightarrow>
     sorted (map watcher_id (drop (Suc (index mid_flush))
        (take p (queue mid_flush) @ job 4 # drop p (queue mid_flush))))"
    by blast
  from p(2) have "mid_flush\<lparr>has := (has mid_flush)(watcher_id (job 4) := Present),
           queue := take p (queue mid_flush) @ job 4 # drop p (queue mid_flush)\<rparr> =
       mid_flush\<lparr>has := (has mid_flush)(watcher_id (job 4) := Present),
                              queue := [job 1, job 2, job 4, job 5, job 8]\<rparr>"
    by (simp only: queueWatcher_mid_flush option.inject outcome.inject)
  then have q: "take p (queue mid_flush) @ job 4 # drop p (queue mid_flush) =
        [job 1, job 2, job 4, job 5, job 8]"
    by (drule_tac arg_cong [where f = queue]) simp
  from h a p q requeue_run show ?thesis
    by blast
qed

section \<open>C2: a job that always registers itself again stops the loop\<close>

text \<open>
  C2, as the code has it. In a build that is not a production build, take a flush in which the
  jobs \<open>pre\<close> that run first register nothing, and a job \<open>w\<close> registers itself again on every
  run. The flush leaves its loop by the \<^verbatim>\<open>break\<close> when the count of re-registrations of \<open>w\<close>
  exceeds \<^verbatim>\<open>MAX_UPDATE_COUNT = 100\<close>: the count is then 101, \<open>w\<close> has run 101 times and has been
  spliced into the queue 101 times. One diagnostic is reported; it names the job by its
  expression when the job is a user watcher and as a component render function otherwise. The
  jobs \<open>post\<close> behind \<open>w\<close> do not run in this flush, and the reset that follows the loop empties
  the queue and the marks.
\<close>

theorem circular_update_breaks_flush:
  assumes "\<not> production h"
    and "\<And>t. run_of E w t = [Call_queueWatcher w]" and "\<And>t. before_of E w t = []"
    and "\<forall>x\<in>set pre. \<forall>t. run_of E x t = [] \<and> before_of E x t = []"
    and "\<And>v t. updated_of E v t = [] \<and> activated_of E v t = []"
    and "sort_key watcher_id (queue s) = pre @ w # post"
    and "\<forall>x\<in>set post. watcher_id w < watcher_id x"
    and "waiting s" and "circular s (watcher_id w) = None"
    and "length pre + MAX_UPDATE_COUNT < n"
  shows "\<exists>s1 s'.
     flush_loop n h E (run_script h (flushSchedulerQueue n h E)) (flush_start s) = Some (Normal s1) \<and>
     index s1 = length pre + MAX_UPDATE_COUNT \<and>
     queue s1 = pre @ replicate (MAX_UPDATE_COUNT + 2) w @ post \<and>
     circular s1 (watcher_id w) = Some (MAX_UPDATE_COUNT + 1) \<and>
     flushSchedulerQueue (Suc n) h E s = Some (Normal s') \<and>
     runs (events s') = runs (events s) @ map watcher_id pre @
       replicate (MAX_UPDATE_COUNT + 1) (watcher_id w) \<and>
     warnings (events s') = warnings (events s) @ [(loop_message w, vm w)] \<and>
     loop_message w = ''You may have an infinite update loop '' @
       (if user w then ''in watcher with expression '' @ [CHR 0x22] @ expression w @ [CHR 0x22]
        else ''in a component render function.'') \<and>
     queue s' = [] \<and> has s' = (\<lambda>_. Absent) \<and> \<not> waiting s' \<and> \<not> flushing s'"
  using assms by (rule self_registering_flush)

theorem circular_update_breaks_flush_witness:
  "\<not> production host_dev \<and> waiting (queued [job 9, watch_job, job 3, job 7]) \<and>
   sort_key watcher_id (queue (queued [job 9, watch_job, job 3, job 7])) =
     [job 3] @ watch_job # [job 7, job 9] \<and>
   circular (queued [job 9, watch_job, job 3, job 7]) (watcher_id watch_job) = None \<and>
   length [job 3] + MAX_UPDATE_COUNT < 102 \<and>
   (\<exists>s'. flushSchedulerQueue 103 host_dev (loop_env 5) (queued [job 9, watch_job, job 3, job 7]) =
        Some (Normal s') \<and>
      runs (events s') = 3 # replicate 101 5 \<and>
      warnings (events s') =
        [(''You may have an infinite update loop in watcher with expression '' @
            [CHR 0x22] @ ''total'' @ [CHR 0x22], 2)] \<and>
      queue s' = [])"
proof -
  let ?s = "queued [job 9, watch_job, job 3, job 7]"
  have h: "\<not> production host_dev"
    "\<And>t. run_of (loop_env 5) watch_job t = [Call_queueWatcher watch_job]"
    "\<And>t. before_of (loop_env 5) watch_job t = []"
    "\<forall>x\<in>set [job 3]. \<forall>t. run_of (loop_env 5) x t = [] \<and> before_of (loop_env 5) x t = []"
    "\<And>v t. updated_of (loop_env 5) v t = [] \<and> activated_of (loop_env 5) v t = []"
    "sort_key watcher_id (queue ?s) = [job 3] @ watch_job # [job 7, job 9]"
    "\<forall>x\<in>set [job 7, job 9]. watcher_id watch_job < watcher_id x"
    "waiting ?s" "circular ?s (watcher_id watch_job) = None"
    "length [job 3] + MAX_UPDATE_COUNT < 102"
    by (simp_all add: host_dev_def loop_env_def quiet_env_def looping_sorts queued_def
        world0_def job_def watch_job_def MAX_UPDATE_COUNT_def)
  from circular_update_breaks_flush [OF h]
  obtain s' where s': "flushSchedulerQueue (Suc 102) host_dev (loop_env 5) ?s = Some (Normal s')"
    "runs (events s') = runs (events ?s) @ map watcher_id [job 3] @
       replicate (MAX_UPDATE_COUNT + 1) (watcher_id watch_job)"
    "warnings (events s') = warnings (events ?s) @ [(loop_message watch_job, vm watch_job)]"
    "queue s' = []"
    by blast
  have e: "Suc 102 = 103" "runs (events ?s) = []" "warnings (events ?s) = []"
    "MAX_UPDATE_COUNT + 1 = 101" "watcher_id watch_job = 5" "vm watch_job = 2"
    "map watcher_id [job 3] = [3]"
    "loop_message watch_job = ''You may have an infinite update loop in watcher with expression '' @
            [CHR 0x22] @ ''total'' @ [CHR 0x22]"
    by (simp_all add: queued_def world0_def MAX_UPDATE_COUNT_def watch_job_def job_def
        loop_message_def)
  have "flushSchedulerQueue 103 host_dev (loop_env 5) ?s = Some (Normal s')"
    "runs (events s') = 3 # replicate 101 5"
    "warnings (events s') = [(''You may have an infinite update loop in watcher with expression '' @
            [CHR 0x22] @ ''total'' @ [CHR 0x22], 2)]"
    using s'(1-3) by (simp_all only: e append_Nil append_Cons)
  with h(1,6,8,9,10) s'(4) show ?thesis by blast
qed

text \<open>
  The claim as stated, a stop after exactly 100 re-registrations with the remaining jobs kept
  for the next cycle, fails: the render job 1 below runs and re-registers 101 times before the
  break, and job 2, queued behind it, is neither run nor left in the queue.
\<close>

theorem circular_update_counterexample:
  "\<exists>s1 s'.
     flush_loop 101 host_dev (loop_env 1)
       (run_script host_dev (flushSchedulerQueue 101 host_dev (loop_env 1)))
       (flush_start (queued [job 2, job 1])) = Some (Normal s1) \<and>
     index s1 = 100 \<and> circular s1 1 = Some 101 \<and> queue s1 = replicate 102 (job 1) @ [job 2] \<and>
     flushSchedulerQueue 102 host_dev (loop_env 1) (queued [job 2, job 1]) = Some (Normal s') \<and>
     runs (events s') = replicate 101 1 \<and>
     warnings (events s') = [(''You may have an infinite update loop in a component render function.'', 1)] \<and>
     queue s' = [] \<and> has s' 2 = Absent"
proof -
  let ?s = "queued [job 2, job 1]"
  have h: "\<not> production host_dev"
    "\<And>t. run_of (loop_env 1) (job 1) t = [Call_queueWatcher (job 1)]"
    "\<And>t. before_of (loop_env 1) (job 1) t = []"
    "\<forall>x\<in>set ([] :: watcher list). \<forall>t. run_of (loop_env 1) x t = [] \<and> before_of (loop_env 1) x t = []"
    "\<And>v t. updated_of (loop_env 1) v t = [] \<and> activated_of (loop_env 1) v t = []"
    "sort_key watcher_id (queue ?s) = [] @ job 1 # [job 2]"
    "\<forall>x\<in>set [job 2]. watcher_id (job 1) < watcher_id x"
    "waiting ?s" "circular ?s (watcher_id (job 1)) = None"
    "length ([] :: watcher list) + MAX_UPDATE_COUNT < 101"
    by (simp_all add: host_dev_def loop_env_def quiet_env_def looping_sorts queued_def
        world0_def job_def MAX_UPDATE_COUNT_def)
  from self_registering_flush [OF h]
  obtain s1 s' where s:
    "flush_loop 101 host_dev (loop_env 1)
       (run_script host_dev (flushSchedulerQueue 101 host_dev (loop_env 1))) (flush_start ?s) =
       Some (Normal s1)"
    "index s1 = length ([] :: watcher list) + MAX_UPDATE_COUNT"
    "queue s1 = [] @ replicate (MAX_UPDATE_COUNT + 2) (job 1) @ [job 2]"
    "circular s1 (watcher_id (job 1)) = Some (MAX_UPDATE_COUNT + 1)"
    "flushSchedulerQueue (Suc 101) host_dev (loop_env 1) ?s = Some (Normal s')"
    "runs (events s') = runs (events ?s) @ map watcher_id ([] :: watcher list) @
       replicate (MAX_UPDATE_COUNT + 1) (watcher_id (job 1))"
    "warnings (events s') = warnings (events ?s) @ [(loop_message (job 1), vm (job 1))]"
    "queue s' = []" "has s' = (\<lambda>_. Absent)"
    by (elim exE conjE) (rule that; assumption)
  have e: "Suc 101 = 102" "runs (events ?s) = []" "warnings (events ?s) = []"
    "MAX_UPDATE_COUNT + 1 = 101" "MAX_UPDATE_COUNT + 2 = 102" "watcher_id (job 1) = 1" "vm (job 1) = 1"
    "length ([] :: watcher list) + MAX_UPDATE_COUNT = 100" "map watcher_id ([] :: watcher list) = []"
    "loop_message (job 1) = ''You may have an infinite update loop in a component render function.''"
    by (simp_all add: queued_def world0_def MAX_UPDATE_COUNT_def job_def loop_message_def)
  have "index s1 = 100" "circular s1 1 = Some 101" "queue s1 = replicate 102 (job 1) @ [job 2]"
    "flushSchedulerQueue 102 host_dev (loop_env 1) ?s = Some (Normal s')"
    "runs (events s') = replicate 101 1"
    "warnings (events s') = [(''You may have an infinite update loop in a component render function.'', 1)]"
    using s(2-7) by (simp_all only: e append_Nil)
  moreover have "has s' 2 = Absent" by (simp add: s(9))
  ultimately show ?thesis using s(1,8) by blast
qed

section \<open>C3: a flush runs the queued jobs in ascending order of id\<close>

text \<open>
  C3. \<^verbatim>\<open>flushSchedulerQueue\<close> enters its loop from the state \<open>flush_start s\<close>, in which the queue
  is the queue of \<open>s\<close> sorted ascending by id, the cursor is 0 and no job has run yet. When
  the jobs queue nothing further, the flush returns and has run the jobs in ascending order of
  id: jobs queued as 3, 1, 2 run as 1, 2, 3.
\<close>

theorem flush_runs_in_id_order:
  assumes "\<And>w s. run_of E w s = [] \<and> before_of E w s = []"
    and "\<And>v s. updated_of E v s = [] \<and> activated_of E v s = []"
    and "length (queue s) \<le> n"
  shows "flushSchedulerQueue (Suc n) h E s =
       and_then (flush_loop n h E (run_script h (flushSchedulerQueue n h E)) (flush_start s))
         (flush_finish h E (run_script h (flushSchedulerQueue n h E))) \<and>
     sorted (map watcher_id (queue (flush_start s))) \<and>
     mset (queue (flush_start s)) = mset (queue s) \<and>
     index (flush_start s) = 0 \<and> events (flush_start s) = events s \<and>
     (\<exists>s'. flushSchedulerQueue (Suc n) h E s = Some (Normal s') \<and>
        runs (events s') = runs (events s) @ map watcher_id (sort_key watcher_id (queue s)))"
proof -
  have a: "sorted (map watcher_id (queue (flush_start s)))"
    "mset (queue (flush_start s)) = mset (queue s)"
    "index (flush_start s) = 0" "events (flush_start s) = events s"
    by (simp_all add: flush_start_def Let_def)
  have "flushSchedulerQueue (Suc n) h E s = Some (Normal (quiet_flush h s))"
    using assms by (rule flushSchedulerQueue_quiet)
  moreover have "runs (events (quiet_flush h s)) =
      runs (events s) @ map watcher_id (sort_key watcher_id (queue s))"
    by (simp add: events_quiet_flush runs_job_events)
  ultimately show ?thesis
    using a by simp
qed

theorem flush_runs_in_id_order_witness:
  "length (queue (queued [job 3, job 1, job 2])) \<le> 3 \<and>
   queue (flush_start (queued [job 3, job 1, job 2])) = [job 1, job 2, job 3] \<and>
   (\<exists>s'. flushSchedulerQueue 4 host_dev quiet_env (queued [job 3, job 1, job 2]) =
        Some (Normal s') \<and> runs (events s') = [1, 2, 3])"
proof -
  let ?s = "queued [job 3, job 1, job 2]"
  have h: "\<And>w s. run_of quiet_env w s = [] \<and> before_of quiet_env w s = []"
    "\<And>v s. updated_of quiet_env v s = [] \<and> activated_of quiet_env v s = []"
    "length (queue ?s) \<le> 3"
    by (simp_all add: quiet_env_def queued_def)
  have q: "queue ?s = [job 3, job 1, job 2]" "runs (events ?s) = []"
    "map watcher_id [job 1, job 2, job 3] = [1, 2, 3]" "Suc 3 = 4"
    by (simp_all add: job_def queued_def world0_def)
  from flush_runs_in_id_order [OF h, of host_dev]
  obtain s' where "flushSchedulerQueue (Suc 3) host_dev quiet_env ?s = Some (Normal s')"
    "runs (events s') = runs (events ?s) @ map watcher_id (sort_key watcher_id (queue ?s))"
    by blast
  then have "flushSchedulerQueue 4 host_dev quiet_env ?s = Some (Normal s')"
    "runs (events s') = [1, 2, 3]"
    by (simp_all only: q sort_three append_Nil)
  moreover have "queue (flush_start ?s) = sort_key watcher_id (queue ?s)"
    by (simp add: flush_start_def Let_def)
  then have "queue (flush_start ?s) = [job 1, job 2, job 3]"
    by (simp only: q sort_three)
  ultimately show ?thesis
    using h(3) by blast
qed

section \<open>C4: a second registration of the same id before the flush does nothing\<close>

text \<open>
  C4. While flushes are deferred to the next tick, \<^verbatim>\<open>queueWatcher\<close> on a job whose id is not
  queued appends it and marks the id; a second call with the same id returns the state
  unchanged. The flush of that cycle then runs the job exactly once (a job that does not
  register itself again while it runs).
\<close>

theorem queueWatcher_dedup:
  assumes "production h \<or> config_async h"
    and "watcher_id w' = watcher_id w"
    and "\<And>w s. run_of E w s = [] \<and> before_of E w s = []"
    and "\<And>v s. updated_of E v s = [] \<and> activated_of E v s = []"
    and "\<not> flushing s" and "\<forall>x\<in>set (queue s). watcher_id x \<noteq> watcher_id w"
    and "has s (watcher_id w) \<noteq> Present"
    and "length (queue s) < n"
  shows "\<exists>s1 s2.
     queueWatcher h flush w s = Some (Normal s1) \<and>
     queueWatcher h flush w' s1 = Some (Normal s1) \<and>
     queue s1 = queue s @ [w] \<and>
     flushSchedulerQueue (Suc n) h E s1 = Some (Normal s2) \<and>
     length (filter (\<lambda>i. i = watcher_id w) (runs (events s2))) =
       Suc (length (filter (\<lambda>i. i = watcher_id w) (runs (events s))))"
proof -
  let ?s0 = "s\<lparr>has := (has s)(watcher_id w := Present), queue := queue s @ [w]\<rparr>"
  define s1 where "s1 = (if waiting s then ?s0
     else snd (nextTick h (Some FlushSchedulerQueue) JUndefined (?s0\<lparr>waiting := True\<rparr>)))"
  have first: "queueWatcher h flush w s = Some (Normal s1)"
    using assms(1,5,7) by (auto simp: queueWatcher_def Let_def s1_def)
  have s1: "has s1 (watcher_id w) = Present" "queue s1 = queue s @ [w]" "events s1 = events s"
    by (simp_all add: s1_def nextTick_frame)
  have second: "queueWatcher h flush w' s1 = Some (Normal s1)"
    by (simp add: queueWatcher_def Let_def assms(2) s1(1))
  have "length (queue s1) \<le> n"
    using assms(8) by (simp add: s1)
  with assms(3,4) have fl: "flushSchedulerQueue (Suc n) h E s1 = Some (Normal (quiet_flush h s1))"
    by (rule flushSchedulerQueue_quiet)
  have r: "runs (events (quiet_flush h s1)) =
      runs (events s) @ map watcher_id (sort_key watcher_id (queue s @ [w]))"
    by (simp add: events_quiet_flush runs_job_events s1)
  have "filter (\<lambda>i. i = watcher_id w) (map watcher_id (sort_key watcher_id (queue s @ [w]))) =
      map watcher_id (filter (\<lambda>x. watcher_id x = watcher_id w) (sort_key watcher_id (queue s @ [w])))"
    by (simp add: filter_map comp_def)
  also have "\<dots> = map watcher_id (filter (\<lambda>x. watcher_id x = watcher_id w) (queue s @ [w]))"
    by (simp only: sort_key_stable)
  also have "\<dots> = [watcher_id w]"
    using assms(6) by (simp add: filter_empty_conv)
  finally have "length (filter (\<lambda>i. i = watcher_id w) (runs (events (quiet_flush h s1)))) =
       Suc (length (filter (\<lambda>i. i = watcher_id w) (runs (events s))))"
    by (simp add: r)
  with first second s1(2) fl show ?thesis by blast
qed

theorem queueWatcher_dedup_witness:
  "config_async host_dev \<and> \<not> flushing world0 \<and> queue world0 = [] \<and>
   has world0 (watcher_id (job 1)) = Absent \<and>
   (\<exists>s1 s2. queueWatcher host_dev (\<lambda>s. None) (job 1) world0 = Some (Normal s1) \<and>
      queueWatcher host_dev (\<lambda>s. None) (job 1) s1 = Some (Normal s1) \<and>
      queue s1 = [job 1] \<and>
      flushSchedulerQueue 3 host_dev quiet_env s1 = Some (Normal s2) \<and>
      runs (events s2) = [1])"
proof -
  have h: "production host_dev \<or> config_async host_dev" "watcher_id (job 1) = watcher_id (job 1)"
    "\<And>w s. run_of quiet_env w s = [] \<and> before_of quiet_env w s = []"
    "\<And>v s. updated_of quiet_env v s = [] \<and> activated_of quiet_env v s = []"
    "\<not> flushing world0" "\<forall>x\<in>set (queue world0). watcher_id x \<noteq> watcher_id (job 1)"
    "has world0 (watcher_id (job 1)) \<noteq> Present" "length (queue world0) < 2"
    by (simp_all add: host_dev_def quiet_env_def world0_def)
  from queueWatcher_dedup [OF h, of "\<lambda>s. None"]
  obtain s1 s2 where r: "queueWatcher host_dev (\<lambda>s. None) (job 1) world0 = Some (Normal s1)"
    "queueWatcher host_dev (\<lambda>s. None) (job 1) s1 = Some (Normal s1)"
    "queue s1 = queue world0 @ [job 1]"
    "flushSchedulerQueue (Suc 2) host_dev quiet_env s1 = Some (Normal s2)"
    by blast
  have n: "Suc 2 = 3" by simp
  have "length (queue s1) \<le> 2" using r(3) by (simp add: world0_def)
  with h(3,4) have "flushSchedulerQueue (Suc 2) host_dev quiet_env s1 = Some (Normal (quiet_flush host_dev s1))"
    by (rule flushSchedulerQueue_quiet)
  with r(4) have "s2 = quiet_flush host_dev s1" by simp
  moreover have "events s1 = []"
    using r(1) by (auto simp: queueWatcher_def Let_def world0_def host_dev_def nextTick_frame)
  ultimately have "runs (events s2) = [1]"
    using r(3) by (simp add: events_quiet_flush runs_def job_events_def world0_def job_def)
  with r show ?thesis
    by (simp add: n host_dev_def world0_def)
qed

section \<open>C5: one scheduling request for a batch of nextTick calls\<close>

text \<open>
  C5. A turn makes \<open>n \<ge> 1\<close> calls of \<^verbatim>\<open>nextTick\<close> with callbacks while nothing is pending.
  Only the first call asks the host to schedule \<^verbatim>\<open>flushCallbacks\<close>: the host calls after the
  whole batch are those after the first call, and exactly one of them schedules a flush.
  Whenever that flush returns, in any mode and whatever the callbacks do, it returns normally and
  has invoked exactly the \<open>n\<close> callbacks, in the order of registration. It does return when
  flushes of the scheduler are deferred (a production build, or \<^verbatim>\<open>config.async\<close>).
\<close>

theorem nextTick_batch:
  assumes "\<not> pending s" and "callbacks s = []" and "reqs \<noteq> []"
  shows "\<exists>s1.
     run_script h flush (map nextTick_call reqs) s = Some (Normal s1) \<and>
     host_calls s1 = host_calls (snd (nextTick h (Some (UserFn (fst (hd reqs)))) (snd (hd reqs)) s)) \<and>
     length (filter schedules_flush (host_calls s1)) =
       Suc (length (filter schedules_flush (host_calls s))) \<and>
     callbacks s1 = map user_entry reqs \<and>
     (\<forall>r. flushCallbacks n h E s1 = Some r \<longrightarrow>
        (\<exists>s2. r = Normal s2 \<and> invocations (events s2) = invocations (events s) @ reqs)) \<and>
     (production h \<or> config_async h \<longrightarrow> (\<exists>s2. flushCallbacks n h E s1 = Some (Normal s2)))"
proof -
  obtain r rs where reqs: "reqs = r # rs"
    using assms(3) by (cases reqs) auto
  let ?s0 = "snd (nextTick h (Some (UserFn (fst r))) (snd r) s)"
  have p: "pending ?s0" by (simp add: nextTick_frame)
  obtain s1 where s1: "run_script h flush (map nextTick_call rs) ?s0 = Some (Normal s1)"
    "host_calls s1 = host_calls ?s0" "pending s1" "events s1 = events ?s0"
    "callbacks s1 = callbacks ?s0 @ map user_entry rs"
    using nextTick_calls_pending [OF p] by blast
  have run: "run_script h flush (map nextTick_call reqs) s = Some (Normal s1)"
    using s1(1) by (simp add: reqs nextTick_call_def)
  have hc: "host_calls ?s0 = host_calls (timerFunc h s)"
    using assms(1) by (simp add: nextTick_host_calls)
  have cbs: "callbacks s1 = map user_entry reqs"
    using s1(5) assms(2) by (simp add: reqs nextTick_callbacks user_entry_def)
  let ?s1 = "s1\<lparr>pending := False, callbacks := []\<rparr>"
  have fc: "flushCallbacks n h E s1 = invoke_copies (call_callback n h E) (map user_entry reqs) ?s1"
    by (simp add: flushCallbacks_def flushCallbacks_with_def Let_def cbs)
  have ev: "invocations (events ?s1) = invocations (events s)"
    using s1(4) by (simp add: nextTick_frame)
  have part: "\<exists>s2. r = Normal s2 \<and> invocations (events s2) = invocations (events s) @ reqs"
    if "flushCallbacks n h E s1 = Some r" for r
    using invoke_copies_user_returns [of n h E reqs ?s1 r] that by (simp only: fc ev)
  have tot: "\<exists>s2. flushCallbacks n h E s1 = Some (Normal s2)"
    if "production h \<or> config_async h"
    using invoke_copies_user_async [OF that, of n E reqs ?s1] by (auto simp only: fc)
  show ?thesis
    using run hc s1(2) cbs part tot by (simp add: reqs timerFunc_one_request)
qed

theorem nextTick_batch_witness:
  "\<not> pending world0 \<and> callbacks world0 = [] \<and> five_requests \<noteq> [] \<and> config_async host_dev \<and>
   (\<exists>s1 s2. run_script host_dev (\<lambda>s. None) (map nextTick_call five_requests) world0 = Some (Normal s1) \<and>
      host_calls s1 = [Promise_then_flushCallbacks] \<and>
      flushCallbacks 0 host_dev quiet_env s1 = Some (Normal s2) \<and>
      invocations (events s2) = five_requests)"
proof -
  have h: "\<not> pending world0" "callbacks world0 = []" "five_requests \<noteq> []"
    by (simp_all add: world0_def five_requests_def)
  have a: "production host_dev \<or> config_async host_dev"
    by (simp add: host_dev_def)
  obtain s1 where r:
    "run_script host_dev (\<lambda>s. None) (map nextTick_call five_requests) world0 = Some (Normal s1)"
    "host_calls s1 = host_calls (snd (nextTick host_dev (Some (UserFn (fst (hd five_requests))))
        (snd (hd five_requests)) world0))"
    "\<And>r. flushCallbacks 0 host_dev quiet_env s1 = Some r \<Longrightarrow>
        \<exists>s2. r = Normal s2 \<and> invocations (events s2) = invocations (events world0) @ five_requests"
    "production host_dev \<or> config_async host_dev \<Longrightarrow>
        \<exists>s2. flushCallbacks 0 host_dev quiet_env s1 = Some (Normal s2)"
    using nextTick_batch [OF h, of host_dev "\<lambda>s. None" 0 quiet_env] by blast
  from r(4) [OF a] obtain s2 where s2: "flushCallbacks 0 host_dev quiet_env s1 = Some (Normal s2)"
    by blast
  from r(3) [OF s2] have "invocations (events s2) = invocations (events world0) @ five_requests"
    by simp
  then have "invocations (events s2) = five_requests"
    by (simp add: world0_def)
  moreover have "host_calls s1 = [Promise_then_flushCallbacks]"
    unfolding r(2)
    by (simp add: world0_def host_dev_def nextTick_host_calls timerFunc_def select_timer_def)
  ultimately show ?thesis
    using h a r(1) s2 by (auto simp: host_dev_def)
qed

section \<open>C6: the scheduler state is reset before the post-flush hooks run\<close>

text \<open>
  C6. Once its loop is left, \<^verbatim>\<open>flushSchedulerQueue\<close> copies the two queues and calls the
  activated and the updated hooks from the state that \<^verbatim>\<open>resetSchedulerState\<close> returns: the job
  queue and the list of activated components are empty, no id is marked, the cursor is 0,
  \<open>waiting\<close> and \<open>flushing\<close> are off and the circular counts are empty (a production build
  never writes them, and its reset leaves them as they are). In that state \<^verbatim>\<open>queueWatcher\<close>
  accepts any job, starts a new queue with it and schedules a new flush. In particular, when
  the updated hook of the component of a job that just ran registers that job again, the
  flush ends with the job queued, marked and waiting for the next flush, having run once.
\<close>

theorem hooks_run_after_reset:
  assumes "production h \<or> config_async h"
    and "queue s = [w]" and "activatedChildren s = []" and "is_primary (vms s) w"
    and "\<And>t. run_of E w t = [] \<and> before_of E w t = []"
    and "\<And>t. updated_of E (vm w) t = [Call_queueWatcher w]"
  shows "flush_finish h E ext s0 =
       and_then (callActivatedHooks E ext (activatedChildren s0) (resetSchedulerState h s0))
         (\<lambda>s2. and_then (callUpdatedHooks E ext (queue s0) s2)
            (\<lambda>s3. Some (Normal (if devtools_on h
                                 then s3\<lparr>events := events s3 @ [Devtools_flush]\<rparr> else s3)))) \<and>
     queue (resetSchedulerState h s0) = [] \<and> activatedChildren (resetSchedulerState h s0) = [] \<and>
     has (resetSchedulerState h s0) = (\<lambda>_. Absent) \<and> index (resetSchedulerState h s0) = 0 \<and>
     \<not> waiting (resetSchedulerState h s0) \<and> \<not> flushing (resetSchedulerState h s0) \<and>
     circular (resetSchedulerState h s0) = (if production h then circular s0 else Map.empty) \<and>
     (\<exists>t. queueWatcher h flush w' (resetSchedulerState h s0) = Some (Normal t) \<and>
        queue t = [w'] \<and> has t (watcher_id w') = Present \<and> waiting t \<and> \<not> flushing t \<and>
        callbacks t = callbacks s0 @ [flush_entry]) \<and>
     (\<exists>s'. flushSchedulerQueue (Suc (Suc n)) h E s = Some (Normal s') \<and>
        runs (events s') = runs (events s) @ [watcher_id w] \<and>
        updated_hooks (events s') = updated_hooks (events s) @ [vm w] \<and>
        queue s' = [w] \<and> has s' = (\<lambda>_. Absent)(watcher_id w := Present) \<and>
        waiting s' \<and> \<not> flushing s' \<and> index s' = 0 \<and>
        callbacks s' = callbacks s @ [flush_entry])"
proof -
  let ?r0 = "resetSchedulerState h s0"
  have a: "flush_finish h E ext s0 =
       and_then (callActivatedHooks E ext (activatedChildren s0) ?r0)
         (\<lambda>s2. and_then (callUpdatedHooks E ext (queue s0) s2)
            (\<lambda>s3. Some (Normal (if devtools_on h
                                 then s3\<lparr>events := events s3 @ [Devtools_flush]\<rparr> else s3))))"
    by (simp add: flush_finish_def Let_def)
  have b: "\<exists>t. queueWatcher h flush w' ?r0 = Some (Normal t) \<and>
        queue t = [w'] \<and> has t (watcher_id w') = Present \<and> waiting t \<and> \<not> flushing t \<and>
        callbacks t = callbacks s0 @ [flush_entry]"
    using queueWatcher_fresh [OF assms(1), of ?r0 w' flush]
    by (auto simp: resetSchedulerState_fields)
  let ?ext = "run_script h (flushSchedulerQueue (Suc n) h E)"
  let ?s0 = "flush_start s"
  let ?s1 = "loop_effect [w] ?s0"
  have q0: "queue ?s0 = [w]" "index ?s0 = 0"
    by (simp_all add: flush_start_def Let_def assms(2))
  have "flush_loop (Suc n) h E ?ext ?s0 =
      Some (Normal (loop_effect (drop (index ?s0) (queue ?s0)) ?s0))"
    by (rule flush_loop_quiet) (use assms(5) in \<open>simp_all add: q0\<close>)
  then have loop: "flush_loop (Suc n) h E ?ext ?s0 = Some (Normal ?s1)"
    by (simp add: q0)
  let ?r = "resetSchedulerState h ?s1"
  let ?r1 = "?r\<lparr>events := events ?r @ [Hook_updated (vm w)]\<rparr>"
  have f1: "queue ?s1 = [w]" "activatedChildren ?s1 = []" "vms ?r = vms s"
    "events ?r = events s @ job_events w" "callbacks ?r = callbacks s"
    by (simp_all add: loop_effect_def flush_start_def resetSchedulerState_fields Let_def assms(2,3))
  obtain t where t: "queueWatcher h (flushSchedulerQueue (Suc n) h E) w ?r1 = Some (Normal t)"
    "queue t = queue ?r1 @ [w]" "has t = (has ?r1)(watcher_id w := Present)" "waiting t"
    "\<not> flushing t" "index t = index ?r1" "callbacks t = callbacks ?r1 @ [flush_entry]"
    "events t = events ?r1"
    using queueWatcher_fresh [OF assms(1), of ?r1 w "flushSchedulerQueue (Suc n) h E"]
    by (auto simp: resetSchedulerState_fields)
  have prim: "vm_watcher (vms ?r (vm w)) = Some (watcher_id w) \<and> vm_isMounted (vms ?r (vm w)) \<and>
      \<not> vm_isDestroyed (vms ?r (vm w))"
    using assms(4) by (simp add: f1 is_primary_def)
  have upd: "callUpdatedHooks E ?ext [w] ?r = Some (Normal t)"
    using prim t(1)
    by (simp add: callUpdatedHooks_def Let_def callHook_updated_def assms(6) and_then_def)
  let ?s' = "if devtools_on h then t\<lparr>events := events t @ [Devtools_flush]\<rparr> else t"
  have fin: "flush_finish h E ?ext ?s1 = Some (Normal ?s')"
    by (simp add: flush_finish_def Let_def f1 upd and_then_def)
  have fl: "flushSchedulerQueue (Suc (Suc n)) h E s = Some (Normal ?s')"
    by (simp add: loop fin and_then_def del: flush_loop.simps)
  have ev: "events t = events s @ job_events w @ [Hook_updated (vm w)]"
    by (simp add: t(8) f1)
  have c: "runs (events ?s') = runs (events s) @ [watcher_id w]"
    "updated_hooks (events ?s') = updated_hooks (events s) @ [vm w]"
    "queue ?s' = [w]" "has ?s' = (\<lambda>_. Absent)(watcher_id w := Present)"
    "waiting ?s'" "\<not> flushing ?s'" "index ?s' = 0" "callbacks ?s' = callbacks s @ [flush_entry]"
    using t(2-7)
    by (simp_all add: ev resetSchedulerState_fields f1 runs_def updated_hooks_def job_events_def
        loop_effect_def flush_start_def Let_def)
  show ?thesis
    using a b fl c by (simp add: resetSchedulerState_fields)
qed

theorem hooks_run_after_reset_witness:
  "config_async host_dev \<and> queue (queued [job 1]) = [job 1] \<and> activatedChildren (queued [job 1]) = [] \<and>
   is_primary (vms (queued [job 1])) (job 1) \<and>
   has (queued [job 1]) (watcher_id (job 1)) = Present \<and>
   (\<exists>t. queueWatcher host_dev (\<lambda>s. None) (job 1) (resetSchedulerState host_dev (queued [job 1])) =
        Some (Normal t) \<and> queue t = [job 1]) \<and>
   (\<exists>s'. flushSchedulerQueue 2 host_dev rehook_env (queued [job 1]) = Some (Normal s') \<and>
      runs (events s') = [1] \<and> updated_hooks (events s') = [1] \<and> queue s' = [job 1] \<and>
      has s' 1 = Present \<and> waiting s' \<and> \<not> flushing s')"
proof -
  have h: "production host_dev \<or> config_async host_dev" "queue (queued [job 1]) = [job 1]"
    "activatedChildren (queued [job 1]) = []" "is_primary (vms (queued [job 1])) (job 1)"
    "\<And>t. run_of rehook_env (job 1) t = [] \<and> before_of rehook_env (job 1) t = []"
    "\<And>t. updated_of rehook_env (vm (job 1)) t = [Call_queueWatcher (job 1)]"
    by (simp_all add: host_dev_def queued_def world0_def is_primary_def component0_def
        job_def rehook_env_def quiet_env_def)
  have e: "runs (events (queued [job 1])) = []" "updated_hooks (events (queued [job 1])) = []"
    "watcher_id (job 1) = 1" "vm (job 1) = 1" "Suc (Suc 0) = 2"
    "has (queued [job 1]) (watcher_id (job 1)) = Present" "config_async host_dev"
    by (simp_all add: queued_def world0_def job_def runs_def updated_hooks_def host_dev_def)
  note T = hooks_run_after_reset [OF h, of "\<lambda>as s. None" "queued [job 1]" "\<lambda>s. None" "job 1" 0]
  from T obtain t where t: "queueWatcher host_dev (\<lambda>s. None) (job 1)
      (resetSchedulerState host_dev (queued [job 1])) = Some (Normal t)" "queue t = [job 1]"
    by blast
  from T obtain s' where s': "flushSchedulerQueue (Suc (Suc 0)) host_dev rehook_env (queued [job 1]) =
      Some (Normal s')"
    "runs (events s') = runs (events (queued [job 1])) @ [watcher_id (job 1)]"
    "updated_hooks (events s') = updated_hooks (events (queued [job 1])) @ [vm (job 1)]"
    "queue s' = [job 1]" "has s' = (\<lambda>_. Absent)(watcher_id (job 1) := Present)"
    "waiting s'" "\<not> flushing s'"
    by blast
  have "flushSchedulerQueue 2 host_dev rehook_env (queued [job 1]) = Some (Normal s')"
    "runs (events s') = [1]" "updated_hooks (events s') = [1]" "has s' 1 = Present"
    using s'(1,2,3,5) by (simp_all only: e append_Nil fun_upd_same)
  with t s'(4,6,7) h(2,3,4) e(6,7) show ?thesis
    by blast
qed

section \<open>C7: an error in one deferred callback does not stop the others\<close>



section \<open>C8: the awaitable returned when the callback is omitted\<close>

text \<open>
  C8, as the code has it. The claim holds on a host where a \<^verbatim>\<open>Promise\<close> global exists, for a
  context that is not a thenable when the flush reaches the entry of the call.
  \<^verbatim>\<open>nextTick\<close> without a callback returns a new promise, which is pending when the call returns.
  No external code run later in the turn settles it, whatever it queues or flushes, and neither
  do the closures the flush runs before the entry of the call: the promise is pending in the
  state \<open>t\<close> in which the flush reaches the entry. There the entry resolves the promise with
  the context: the promise is fulfilled with exactly the context value, unless the context is
  then an object with a callable \<^verbatim>\<open>then\<close>, which the promise follows, or an object whose
  \<^verbatim>\<open>then\<close> throws when read, which rejects the promise. The closures run after the entry leave
  the promise as it is. This holds whatever is pending before the call and whatever is pushed
  after it, in every mode, whenever the flush returns; the flush of a lone entry does return.
\<close>

theorem nextTick_awaitable:
  assumes "Promise_defined h" and "resolvers_bounded s"
  shows "fst (nextTick h None ctx s) = Some (length (promises s)) \<and>
     promises (snd (nextTick h None ctx s)) = promises s @ [Pending] \<and>
     callbacks (snd (nextTick h None ctx s)) = callbacks s @
       [\<lparr>entry_cb = None, entry_ctx = ctx, entry_resolve = Some (length (promises s))\<rparr>] \<and>
     (run_script h (flushSchedulerQueue n h E) as (snd (nextTick h None ctx s)) = Some r1 \<longrightarrow>
        promises (world_of r1) ! length (promises s) = Pending \<and>
        (flushCallbacks m h E (world_of r1) = Some r \<longrightarrow>
           (\<exists>t s2. invoke_copies (call_callback m h E) (callbacks s)
                      ((world_of r1)\<lparr>pending := False, callbacks := []\<rparr>) = Some (Normal t) \<and>
              promises t ! length (promises s) = Pending \<and>
              r = Normal s2 \<and>
              promises s2 ! length (promises s) = resolution (thens t) ctx \<and>
              (promises s2 ! length (promises s) = Fulfilled ctx) = (\<not> thenable (thens t) ctx)))) \<and>
     (p < length (promises s') \<and> promises s' ! p = Pending \<longrightarrow>
        run_entry call \<lparr>entry_cb = None, entry_ctx = ctx, entry_resolve = Some p\<rparr> s' =
          Some (Normal (s'\<lparr>promises := (promises s')[p := resolution (thens s') ctx]\<rparr>))) \<and>
     (callbacks s = [] \<longrightarrow>
        (\<exists>s2. flushCallbacks m h E (snd (nextTick h None ctx s)) = Some (Normal s2) \<and>
           promises s2 = promises s @ [resolution (thens s) ctx]))"
proof -
  let ?s1 = "snd (nextTick h None ctx s)"
  let ?p = "length (promises s)"
  let ?e = "\<lparr>entry_cb = None, entry_ctx = ctx, entry_resolve = Some ?p\<rparr>"
  have pr: "promises ?s1 = promises s @ [Pending]"
    using assms(1) by (simp add: nextTick_promises)
  have cb: "callbacks ?s1 = callbacks s @ [?e]"
    using assms(1) by (simp add: nextTick_callbacks)
  have b: "promises (world_of r1) ! ?p = Pending \<and>
        (flushCallbacks m h E (world_of r1) = Some r \<longrightarrow>
           (\<exists>t s2. invoke_copies (call_callback m h E) (callbacks s)
                      ((world_of r1)\<lparr>pending := False, callbacks := []\<rparr>) = Some (Normal t) \<and>
              promises t ! ?p = Pending \<and>
              r = Normal s2 \<and>
              promises s2 ! ?p = resolution (thens t) ctx \<and>
              (promises s2 ! ?p = Fulfilled ctx) = (\<not> thenable (thens t) ctx)))"
    if run: "run_script h (flushSchedulerQueue n h E) as ?s1 = Some r1"
  proof -
    from script_after_nextTick [OF assms run] obtain post where post:
      "callbacks (world_of r1) = callbacks s @ ?e # post"
      "\<forall>e\<in>set (callbacks s @ post). entry_resolve e \<noteq> Some ?p"
      "?p < length (promises (world_of r1))" "promises (world_of r1) ! ?p = Pending"
      by blast
    have "\<exists>t s2. invoke_copies (call_callback m h E) (callbacks s)
                      ((world_of r1)\<lparr>pending := False, callbacks := []\<rparr>) = Some (Normal t) \<and>
              promises t ! ?p = Pending \<and>
              r = Normal s2 \<and>
              promises s2 ! ?p = resolution (thens t) ctx \<and>
              (promises s2 ! ?p = Fulfilled ctx) = (\<not> thenable (thens t) ctx)"
      if "flushCallbacks m h E (world_of r1) = Some r"
      using flushCallbacks_resolves [OF post that]
      by (auto simp: resolution_fulfilled_iff)
    with post(4) show ?thesis by blast
  qed
  have d: "\<exists>s2. flushCallbacks m h E ?s1 = Some (Normal s2) \<and>
             promises s2 = promises s @ [resolution (thens s) ctx]"
    if "callbacks s = []"
  proof -
    let ?s = "?s1\<lparr>pending := False, callbacks := []\<rparr>"
    have "run_entry (call_callback m h E) ?e ?s =
          Some (Normal (?s\<lparr>promises := (promises ?s)[?p := resolution (thens ?s) ctx]\<rparr>))"
      by (rule run_entry_resolve) (simp_all add: pr)
    then show ?thesis
      using that
      by (simp add: flushCallbacks_def flushCallbacks_with_def Let_def cb pr nextTick_thens)
  qed
  show ?thesis
    using assms(1) pr cb b d by (simp add: nextTick_fst run_entry_resolve)
qed


theorem nextTick_awaitable_witness:
  "Promise_defined host_dev \<and> resolvers_bounded (queued [job 1]) \<and>
   fst (nextTick host_dev None (JStr ''x'') (queued [job 1])) = Some 0 \<and>
   (\<exists>r1 s2.
      run_script host_dev (flushSchedulerQueue 0 host_dev quiet_env)
        [Call_nextTick (Some (UserFn 7)) JUndefined]
        (snd (nextTick host_dev None (JStr ''x'') (queued [job 1]))) = Some r1 \<and>
      callbacks (world_of r1) =
        [flush_entry,
         \<lparr>entry_cb = None, entry_ctx = JStr ''x'', entry_resolve = Some 0\<rparr>,
         user_entry (7, JUndefined)] \<and>
      promises (world_of r1) ! 0 = Pending \<and>
      flushCallbacks 2 host_dev quiet_env (world_of r1) = Some (Normal s2) \<and>
      promises s2 ! 0 = Fulfilled (JStr ''x'')) \<and>
   resolvers_bounded world0 \<and> callbacks world0 = [] \<and>
   (\<exists>s2. flushCallbacks 0 host_dev quiet_env (snd (nextTick host_dev None (JStr ''x'') world0)) =
        Some (Normal s2) \<and> promises s2 = [Fulfilled (JStr ''x'')]) \<and>
   promises (snd (nextTick host_dev None (JStr ''x'') world0)) = [Pending] \<and>
   run_entry (\<lambda>f c s. None)
     \<lparr>entry_cb = None, entry_ctx = JStr ''x'', entry_resolve = Some 0\<rparr>
     (snd (nextTick host_dev None (JStr ''x'') world0)) =
     Some (Normal ((snd (nextTick host_dev None (JStr ''x'') world0))
       \<lparr>promises := [Fulfilled (JStr ''x'')]\<rparr>))"
proof -
  let ?s = "queued [job 1]"
  let ?s1 = "snd (nextTick host_dev None (JStr ''x'') ?s)"
  let ?as = "[Call_nextTick (Some (UserFn 7)) JUndefined]"
  let ?w = "snd (nextTick host_dev (Some (UserFn 7)) JUndefined ?s1)"
  let ?e = "\<lparr>entry_cb = None, entry_ctx = JStr ''x'', entry_resolve = Some 0\<rparr>"
  have h: "Promise_defined host_dev" "resolvers_bounded ?s"
    by (simp_all add: host_dev_def resolvers_bounded_def queued_def world0_def flush_entry_def)
  have len: "length (promises ?s) = 0" "callbacks ?s = [flush_entry]"
    by (simp_all add: queued_def world0_def)
  have run: "run_script host_dev (flushSchedulerQueue 0 host_dev quiet_env) ?as ?s1 = Some (Normal ?w)"
    by simp
  have cbs: "callbacks ?w = [flush_entry, ?e, user_entry (7, JUndefined)]"
    by (simp add: nextTick_callbacks queued_def world0_def user_entry_def host_dev_def)
  define w0 where "w0 = ?w\<lparr>pending := False, callbacks := []\<rparr>"
  have q: "length (queue w0) \<le> 1"
    by (simp add: w0_def nextTick_frame queued_def world0_def)
  have "flushSchedulerQueue (Suc 1) host_dev quiet_env w0 = Some (Normal (quiet_flush host_dev w0))"
    by (rule flushSchedulerQueue_quiet) (use q in \<open>simp_all add: quiet_env_def\<close>)
  then have fsq: "flushSchedulerQueue 2 host_dev quiet_env w0 = Some (Normal (quiet_flush host_dev w0))"
    by (simp only: Suc_1)
  have fc: "flushCallbacks 2 host_dev quiet_env ?w =
      invoke_copies (call_callback 2 host_dev quiet_env) [flush_entry, ?e, user_entry (7, JUndefined)] w0"
  proof -
    have "callbacks (?w\<lparr>pending := False\<rparr>) = callbacks ?w" by simp
    then show ?thesis
      by (simp only: flushCallbacks_def flushCallbacks_with_def Let_def w0_def cbs)
  qed
  have e1: "run_entry (call_callback 2 host_dev quiet_env) flush_entry w0 =
      Some (Normal (quiet_flush host_dev w0))"
    by (simp add: run_entry_def call_callback_def flush_entry_def fsq)
  have e2: "run_entry (call_callback 2 host_dev quiet_env) ?e u =
      Some (Normal (resolve_promise 0 (JStr ''x'') u))" for u
    by (simp add: run_entry_def)
  have e3: "run_entry (call_callback 2 host_dev quiet_env) (user_entry (7, JUndefined)) u =
      Some (Normal (u\<lparr>events := events u @ [Cb_called 7 JUndefined]\<rparr>))" for u
    by (simp add: run_entry_def call_callback_def user_entry_def quiet_env_def Let_def)
  obtain r where r: "flushCallbacks 2 host_dev quiet_env ?w = Some r"
    unfolding fc by (simp add: e1 e2 e3)
  note T = nextTick_awaitable [OF h, of "JStr ''x''" 0 quiet_env ?as "Normal ?w" 2 r 0 ?s1
      "\<lambda>f c s. None", unfolded world_of_simps len]
  note T4 = T [THEN conjunct2, THEN conjunct2, THEN conjunct2, THEN conjunct1, THEN mp, OF run]
  from T4 have a: "promises ?w ! 0 = Pending"
    by (rule conjunct1)
  from T4 [THEN conjunct2, THEN mp, OF r] obtain s2 where s2: "r = Normal s2"
    "promises s2 ! 0 = Fulfilled (JStr ''x'')"
    by (auto simp: thenable_def)
  from T have f: "fst (nextTick host_dev None (JStr ''x'') ?s) = Some 0"
    by (rule conjunct1)
  have mixed: "\<exists>r1 s2.
      run_script host_dev (flushSchedulerQueue 0 host_dev quiet_env) ?as ?s1 = Some r1 \<and>
      callbacks (world_of r1) = [flush_entry, ?e, user_entry (7, JUndefined)] \<and>
      promises (world_of r1) ! 0 = Pending \<and>
      flushCallbacks 2 host_dev quiet_env (world_of r1) = Some (Normal s2) \<and>
      promises s2 ! 0 = Fulfilled (JStr ''x'')"
  proof (intro exI conjI)
    show "run_script host_dev (flushSchedulerQueue 0 host_dev quiet_env) ?as ?s1 = Some (Normal ?w)"
      by (rule run)
    show "callbacks (world_of (Normal ?w)) = [flush_entry, ?e, user_entry (7, JUndefined)]"
      unfolding world_of_simps by (rule cbs)
    show "promises (world_of (Normal ?w)) ! 0 = Pending"
      unfolding world_of_simps by (rule a)
    show "flushCallbacks 2 host_dev quiet_env (world_of (Normal ?w)) = Some (Normal s2)"
      unfolding world_of_simps using r by (simp only: s2(1))
    show "promises s2 ! 0 = Fulfilled (JStr ''x'')"
      by (rule s2(2))
  qed
  let ?u = "snd (nextTick host_dev None (JStr ''x'') world0)"
  have c0: "callbacks world0 = []" "promises world0 = []" "length (promises world0) = 0"
    by (simp_all add: world0_def)
  have res: "resolution th (JStr ''x'') = Fulfilled (JStr ''x'')" for th
    by (simp add: resolution_def)
  note U = nextTick_awaitable [OF h(1) world0_bounded, of "JStr ''x''" 0 quiet_env "[]" "Normal ?u"
      0 "Normal ?u" 0 ?u "\<lambda>f c s. None", unfolded c0 res append_Nil]
  from U have pr0: "promises ?u = [Pending]"
    by (elim conjE)
  from U [THEN conjunct2, THEN conjunct2, THEN conjunct2, THEN conjunct2, THEN conjunct2]
  have lone: "\<exists>s2. flushCallbacks 0 host_dev quiet_env ?u = Some (Normal s2) \<and>
      promises s2 = [Fulfilled (JStr ''x'')]"
    by simp
  have "0 < length (promises ?u) \<and> promises ?u ! 0 = Pending"
    by (simp only: pr0) simp
  from U [THEN conjunct2, THEN conjunct2, THEN conjunct2, THEN conjunct2, THEN conjunct1, THEN mp,
      OF this]
  have one: "run_entry (\<lambda>f c s. None) ?e ?u =
      Some (Normal (?u\<lparr>promises := [Fulfilled (JStr ''x'')]\<rparr>))"
    by (simp only: pr0 list_update_code)
  from h f mixed world0_bounded c0(1) lone pr0 one show ?thesis
    by (intro conjI)
qed

text \<open>
  The claim as stated, for every call, fails in two ways. On a host without a \<^verbatim>\<open>Promise\<close>
  global the call returns \<^verbatim>\<open>undefined\<close>, and the flush of its entry settles nothing. And with a
  \<^verbatim>\<open>Promise\<close>, a context that has a \<^verbatim>\<open>then\<close> method is adopted: the flush leaves the promise
  following the context instead of fulfilled with it.
\<close>

theorem nextTick_awaitable_counterexample:
  "fst (nextTick host_no_promise None (JStr ''x'') world0) = None \<and>
   flushCallbacks 0 host_no_promise quiet_env (snd (nextTick host_no_promise None (JStr ''x'') world0)) =
     Some (Normal (world0\<lparr>pending := False, host_calls := [SetTimeout_flushCallbacks]\<rparr>)) \<and>
   fst (nextTick host_dev None (JObj 0) world_thenable) = Some 0 \<and>
   flushCallbacks 0 host_dev quiet_env (snd (nextTick host_dev None (JObj 0) world_thenable)) =
     Some (Normal (world_thenable\<lparr>pending := False, promises := [Following (JObj 0)],
       host_calls := [Promise_then_flushCallbacks]\<rparr>))"
  by (simp add: nextTick_def Let_def host_no_promise_def host_dev_def world0_def world_thenable_def
      timerFunc_def select_timer_def flushCallbacks_def flushCallbacks_with_def run_entry_def
      resolve_promise_def resolution_def)

section \<open>C9: updated hooks run from the end of the queue backward\<close>

text \<open>
  C9. \<^verbatim>\<open>callUpdatedHooks\<close> walks the copied queue from its last job to its first and calls the
  \<^verbatim>\<open>updated\<close> hook exactly for the jobs that are the render watcher of their component
  (\<^verbatim>\<open>vm._watcher === watcher\<close>) while that component is mounted and not destroyed. After a
  flush the hooks called are those of the sorted queue, in reverse: primary jobs 1, 2, 3 give
  the hooks 3, 2, 1. (Hooks that call nothing back, so that each test reads the components
  as the flush left them.)
\<close>

theorem updated_hooks_reverse_order:
  assumes "\<And>w s. run_of E w s = [] \<and> before_of E w s = []"
    and "\<And>v s. updated_of E v s = [] \<and> activated_of E v s = []"
    and "length (queue s) \<le> n"
  shows "callUpdatedHooks E (run_script h flush) q s =
       Some (Normal (s\<lparr>events := events s @
          map (\<lambda>w. Hook_updated (vm w)) (filter (is_primary (vms s)) (rev q))\<rparr>)) \<and>
     (\<exists>s'. flushSchedulerQueue (Suc n) h E s = Some (Normal s') \<and>
        updated_hooks (events s') = updated_hooks (events s) @
          map vm (filter (is_primary (vms s)) (rev (sort_key watcher_id (queue s)))))"
proof -
  have "updated_from (length q) E (run_script h flush) q s =
     Some (Normal (s\<lparr>events := events s @
        map (\<lambda>w. Hook_updated (vm w)) (filter (is_primary (vms s)) (rev (take (length q) q)))\<rparr>))"
    by (rule updated_from_quiet) (use assms(2) in simp_all)
  then have a: "callUpdatedHooks E (run_script h flush) q s =
       Some (Normal (s\<lparr>events := events s @
          map (\<lambda>w. Hook_updated (vm w)) (filter (is_primary (vms s)) (rev q))\<rparr>))"
    by (simp add: callUpdatedHooks_def)
  have "flushSchedulerQueue (Suc n) h E s = Some (Normal (quiet_flush h s))"
    using assms by (rule flushSchedulerQueue_quiet)
  moreover have "updated_hooks (events (quiet_flush h s)) = updated_hooks (events s) @
          map vm (filter (is_primary (vms s)) (rev (sort_key watcher_id (queue s))))"
    by (simp add: events_quiet_flush updated_hooks_job_events)
  ultimately show ?thesis
    using a by simp
qed

theorem updated_hooks_reverse_order_witness:
  "length (queue (queued [job 1, job 2, job 3])) \<le> 3 \<and>
   (\<exists>s'. callUpdatedHooks quiet_env (run_script host_dev (\<lambda>s. None)) [job 1, watch_job, job 3] world0 =
        Some (Normal s') \<and> updated_hooks (events s') = [3, 1]) \<and>
   (\<exists>s'. flushSchedulerQueue 4 host_dev quiet_env (queued [job 1, job 2, job 3]) =
        Some (Normal s') \<and> updated_hooks (events s') = [3, 2, 1])"
proof -
  let ?s = "queued [job 1, job 2, job 3]"
  have h: "\<And>w s. run_of quiet_env w s = [] \<and> before_of quiet_env w s = []"
    "\<And>v s. updated_of quiet_env v s = [] \<and> activated_of quiet_env v s = []"
    "length (queue ?s) \<le> 3"
    by (simp_all add: quiet_env_def queued_def)
  have q: "queue ?s = [job 1, job 2, job 3]" "updated_hooks (events ?s) = []" "vms ?s = vms world0"
    "rev [job 1, job 2, job 3] = [job 3, job 2, job 1]"
    "map vm [job 3, job 2, job 1] = [3, 2, 1]" "Suc 3 = 4"
    by (simp_all add: job_def queued_def world0_def)
  from updated_hooks_reverse_order [OF h, of host_dev "\<lambda>s. None" "[job 1, job 2, job 3]"]
  obtain s' where "flushSchedulerQueue (Suc 3) host_dev quiet_env ?s = Some (Normal s')"
    "updated_hooks (events s') = updated_hooks (events ?s) @
          map vm (filter (is_primary (vms ?s)) (rev (sort_key watcher_id (queue ?s))))"
    by blast
  then have a: "flushSchedulerQueue 4 host_dev quiet_env ?s = Some (Normal s')"
    "updated_hooks (events s') = [3, 2, 1]"
    by (simp_all only: q sort_sorted_three primary_examples append_Nil)
  have h0: "length (queue world0) \<le> 3" by (simp add: queued_def world0_def)
  let ?t = "world0\<lparr>events := events world0 @
          map (\<lambda>w. Hook_updated (vm w))
            (filter (is_primary (vms world0)) (rev [job 1, watch_job, job 3]))\<rparr>"
  from updated_hooks_reverse_order [OF h(1,2) h0, of host_dev "\<lambda>s. None" "[job 1, watch_job, job 3]"]
  have b: "callUpdatedHooks quiet_env (run_script host_dev (\<lambda>s. None)) [job 1, watch_job, job 3] world0 =
       Some (Normal ?t)"
    by blast
  have "events ?t = events world0 @ map (\<lambda>w. Hook_updated (vm w))
            (filter (is_primary (vms world0)) [job 3, watch_job, job 1])"
    by simp
  then have "events ?t = events world0 @ map (\<lambda>w. Hook_updated (vm w)) [job 3, job 1]"
    by (simp only: primary_examples)
  then have "updated_hooks (events ?t) = [3, 1]"
    by (simp add: job_def queued_def world0_def updated_hooks_def)
  with a b h(3) show ?thesis by blast
qed

section \<open>C10: nextTick on a host without a Promise global\<close>



end
